theory Spec2Isabelle
  imports Main "HOL-Library.Sublist"
begin

section \<open>Data model of the playback queue (\<open>src/index.ts\<close>)\<close>

text \<open>
  A queue item is the object literal \<open>{ uid, link }\<close> (lines 60-61). The \<open>add\<close> and \<open>batch\<close>
  handlers push one and the same object into \<open>videoQueue\<close> and \<open>originalQueue\<close> (lines 290-292,
  327-329), and the playback loop later assigns to the \<open>link\<close> field of the popped object
  (line 218). The aliasing matters, so items live in an explicit store and the two queues hold
  references into it; \<open>nextRef\<close> is the next unused reference.
\<close>

record item =
  uid :: string
  link :: string

type_synonym ref = nat

text \<open>
  \<open>currentPlayback\<close> (line 67) is null or a \<open>PCancelable\<close>. The promise is pending, resolved
  with the result of \<open>streamLivestreamVideo\<close> or with the string \<open>"error skipped"\<close>
  (lines 252-258), or rejected with a \<open>CancelError\<close> by \<open>cancel()\<close> (lines 248-250).
\<close>

datatype settled = Finished | ErrorSkipped

datatype handle = Pending | Resolved settled | Rejected

text \<open>The custom status last set on the client: none yet, \<open>status_idle\<close> or \<open>status_watch\<close>.\<close>

datatype presence = NoActivity | StatusIdle | StatusWatch

text \<open>
  A log of what the loop does to the outside: \<open>createStream\<close> has resolved, an item was
  shifted off \<open>videoQueue\<close> (with its link at that moment), \<open>streamLivestreamVideo\<close> was
  called on a source.
\<close>

datatype obs = SessionAcquired | Popped ref string | Transmit ref string

text \<open>
  \<open>playQueue\<close> is an async function: it runs until the next \<open>await\<close> and is resumed when the
  awaited promise settles; command handlers run in between. A suspended call of \<open>playQueue\<close>
  is the await it is waiting at, together with the local variables that are live there:
  \<^item> \<open>AwaitJoin\<close>: \<open>joinVoice\<close>, line 194;
  \<^item> \<open>AwaitCreate j\<close>: \<open>createStream\<close>, line 195 (\<open>j\<close> true) or line 198 (\<open>j\<close> false);
  \<^item> \<open>AwaitFetch next\<close>: \<open>preDownloadVideo\<close>, line 217;
  \<^item> \<open>AwaitAnnounce next video\<close>: \<open>sendPlain\<close> in \<open>playVideoWithConnection\<close>, line 243;
  \<^item> \<open>AwaitStream next\<close>: \<open>await currentPlayback\<close>, line 260;
  \<^item> \<open>AwaitFinish next\<close>: \<open>sendPlain\<close> in the \<open>finally\<close> block, line 269;
  \<^item> \<open>AwaitCooldown\<close>: the one-second timer, line 231;
  \<^item> \<open>AwaitLeave\<close>: \<open>leaveVoice\<close> in \<open>cleanupStreamStatus\<close>, line 449, called from line 233;
  \<^item> \<open>AwaitCleanupDelay\<close>: the half-second timer, line 455.
  The state holds a list of suspended calls, so that nothing in the model itself prevents
  two loops from running.
\<close>

datatype pc =
    AwaitJoin
  | AwaitCreate bool
  | AwaitFetch ref
  | AwaitAnnounce ref string
  | AwaitStream ref
  | AwaitFinish ref
  | AwaitCooldown
  | AwaitLeave
  | AwaitCleanupDelay

text \<open>
  How an awaited promise settles: it resolves, it rejects, \<open>preDownloadVideo\<close> resolves with
  a local path, or \<open>await currentPlayback\<close> throws the \<open>CancelError\<close>.
\<close>

datatype outcome = Done | Fail | Local string | Cancelled

record state =
  store :: "ref \<Rightarrow> item"
  nextRef :: ref
  videoQueue :: "ref list"
  originalQueue :: "ref list"
  loopEnabled :: bool
  isPlayingQueue :: bool
  stopRequested :: bool
  currentPlayback :: "handle option"
  joined :: bool
  joinsucc :: bool
  playing :: bool
  speaking :: bool
  videoStatus :: bool
  activity :: presence
  loops :: "pc list"
  trace :: "obs list"

text \<open>The module-level initial values (lines 48-67).\<close>

definition init :: state where
  "init = \<lparr> store = (\<lambda>_. \<lparr> uid = [], link = [] \<rparr>), nextRef = 0,
            videoQueue = [], originalQueue = [], loopEnabled = False,
            isPlayingQueue = False, stopRequested = False, currentPlayback = None,
            joined = False, joinsucc = False, playing = False,
            speaking = False, videoStatus = False, activity = NoActivity,
            loops = [], trace = [] \<rparr>"

subsection \<open>Library functions of the host language\<close>

text \<open>\<open>String.prototype.startsWith\<close>.\<close>

definition startsWith :: "string \<Rightarrow> string \<Rightarrow> bool" where
  "startsWith s p = (take (length p) s = p)"

text \<open>\<open>Array.prototype.findIndex\<close>; \<open>None\<close> stands for the result \<open>-1\<close>.\<close>

fun findIndex :: "('a \<Rightarrow> bool) \<Rightarrow> 'a list \<Rightarrow> nat option" where
  "findIndex P [] = None"
| "findIndex P (x # xs) =
     (if P x then Some 0 else (case findIndex P xs of None \<Rightarrow> None | Some i \<Rightarrow> Some (Suc i)))"

text \<open>\<open>xs.splice(i, 1)\<close>: the array without the element at index \<open>i\<close>.\<close>

definition splice1 :: "nat \<Rightarrow> 'a list \<Rightarrow> 'a list" where
  "splice1 i xs = take i xs @ drop (Suc i) xs"

section \<open>The playback loop\<close>

text \<open>
  \<open>cleanupStreamStatus\<close> (lines 448-461). The call runs up to \<open>await streamer.leaveVoice()\<close>;
  once that has resolved, the idle presence is set and the three \<open>streamStatus\<close> flags are
  cleared. The reset of \<open>channelInfo\<close> after the timer writes constants and is not modelled.
\<close>

definition cleanup_begin :: "state \<Rightarrow> pc option \<times> state" where
  "cleanup_begin s = (Some AwaitLeave, s)"

definition cleanup_flags :: "state \<Rightarrow> state" where
  "cleanup_flags s =
     s\<lparr> joined := False, joinsucc := False, playing := False, activity := StatusIdle \<rparr>"

text \<open>
  \<open>playVideoWithConnection\<close> (lines 239-272) up to its first await: the speaking and video
  flags of the connection are set and, the title of a queue item being non-empty, the
  now-playing notice is sent.
\<close>

definition playVideoWithConnection :: "ref \<Rightarrow> string \<Rightarrow> state \<Rightarrow> pc option \<times> state" where
  "playVideoWithConnection a video s =
     (Some (AwaitAnnounce a video), s\<lparr> speaking := True, videoStatus := True \<rparr>)"

text \<open>The \<open>finally\<close> block (lines 266-271) up to the await of the finish notice.\<close>

definition finish_playback :: "ref \<Rightarrow> state \<Rightarrow> pc option \<times> state" where
  "finish_playback a s = (Some (AwaitFinish a), s\<lparr> speaking := False, videoStatus := False \<rparr>)"

text \<open>
  Lines 224-227: the second look at the stop flag, then the call of
  \<open>playVideoWithConnection\<close> with the link the item has now. A \<open>break\<close> leaves the loop for
  line 233.
\<close>

definition play_item :: "ref \<Rightarrow> state \<Rightarrow> pc option \<times> state" where
  "play_item a s =
     (if stopRequested s then cleanup_begin s
      else playVideoWithConnection a (link (store s a)) s)"

text \<open>Lines 213-227 for the item \<open>a\<close> that \<open>shift()\<close> has returned, \<open>rest\<close> being left behind.\<close>

definition iteration :: "ref \<Rightarrow> ref list \<Rightarrow> state \<Rightarrow> pc option \<times> state" where
  "iteration a rest s1 =
     (let s2 = s1\<lparr> videoQueue := rest, trace := trace s1 @ [Popped a (link (store s1 a))] \<rparr>
      in if startsWith (link (store s2 a)) ''http''
         then (Some (AwaitFetch a), s2)
         else play_item a s2)"

text \<open>
  The loop from its head (line 205) to the next await. \<open>originalQueue.slice()\<close> is a new
  array of the same objects. \<open>if (!next) continue\<close> (line 214) is the recursive call; it is
  never reached, since the array is not empty after the check of line 206, and that is the
  termination argument.
\<close>

function loop_top :: "state \<Rightarrow> pc option \<times> state" where
  "loop_top s =
     (if stopRequested s then cleanup_begin s
      else
        (case (if videoQueue s = []
               then (if loopEnabled s \<and> originalQueue s \<noteq> []
                     then Some (s\<lparr> videoQueue := originalQueue s \<rparr>)
                     else None)
               else Some s) of
           None \<Rightarrow> cleanup_begin s
         | Some s1 \<Rightarrow>
             (case videoQueue s1 of
                [] \<Rightarrow> loop_top s1
              | a # rest \<Rightarrow> iteration a rest s1)))"
  by pat_completeness auto
termination
  apply (relation "{}")
   apply simp
  apply (auto split: if_splits)
  done

text \<open>
  Resuming a suspended call with the outcome of its await; the result is the next await, or
  \<open>None\<close> when \<open>playQueue\<close> has returned or thrown. Every await but the two timers can
  reject:
  \<^item> \<open>joinVoice\<close> and \<open>createStream\<close>: the \<open>catch\<close> of lines 200-204 clears
    \<open>isPlayingQueue\<close> and returns;
  \<^item> \<open>preDownloadVideo\<close>: the \<open>catch\<close> of lines 219-222 continues with the loop head;
  \<^item> \<open>streamLivestreamVideo\<close>: the inner \<open>catch\<close> of lines 254-258 resolves the handle with
    \<open>"error skipped"\<close>;
  \<^item> the now-playing notice of line 243, which is outside the \<open>try\<close> of
    \<open>playVideoWithConnection\<close>: the call rejects, the \<open>catch\<close> of line 228 takes it and the loop
    goes to the cooldown, the speaking and video flags still set;
  \<^item> the finish notice of line 269, in the \<open>finally\<close> block: the assignment of line 270 is
    skipped, the call rejects, the \<open>catch\<close> of line 228 takes it and the loop goes to the
    cooldown, \<open>currentPlayback\<close> still holding the settled handle;
  \<^item> \<open>leaveVoice\<close> (line 449): \<open>cleanupStreamStatus\<close> rejects, and so does \<open>playQueue\<close> at line
    233, outside any \<open>try\<close>, with \<open>isPlayingQueue\<close> left as it is.
  An outcome that the await cannot have leaves everything as it is; so does the settling of
  \<open>streamLivestreamVideo\<close> after \<open>cancel()\<close>, since \<open>resolve\<close> on a rejected promise does
  nothing.
\<close>

fun resume :: "pc \<Rightarrow> outcome \<Rightarrow> state \<Rightarrow> pc option \<times> state" where
  "resume AwaitJoin Done s = (Some (AwaitCreate True), s)"
| "resume AwaitJoin Fail s = (None, s\<lparr> isPlayingQueue := False \<rparr>)"
| "resume (AwaitCreate j) Done s =
     loop_top ((if j then s\<lparr> joined := True \<rparr> else s)\<lparr> trace := trace s @ [SessionAcquired] \<rparr>)"
| "resume (AwaitCreate j) Fail s = (None, s\<lparr> isPlayingQueue := False \<rparr>)"
| "resume (AwaitFetch a) (Local p) s =
     play_item a (s\<lparr> store := (store s)(a := (store s a)\<lparr> link := p \<rparr>) \<rparr>)"
| "resume (AwaitFetch a) Fail s = loop_top s"
| "resume (AwaitAnnounce a video) Done s =
     (Some (AwaitStream a),
      s\<lparr> activity := StatusWatch, currentPlayback := Some Pending,
         trace := trace s @ [Transmit a video] \<rparr>)"
| "resume (AwaitAnnounce a video) Fail s = (Some AwaitCooldown, s)"
| "resume (AwaitStream a) Done s =
     (if currentPlayback s = Some Pending
      then finish_playback a (s\<lparr> currentPlayback := Some (Resolved Finished) \<rparr>)
      else (Some (AwaitStream a), s))"
| "resume (AwaitStream a) Fail s =
     (if currentPlayback s = Some Pending
      then finish_playback a (s\<lparr> currentPlayback := Some (Resolved ErrorSkipped) \<rparr>)
      else (Some (AwaitStream a), s))"
| "resume (AwaitStream a) Cancelled s =
     (if currentPlayback s = Some Rejected
      then finish_playback a s
      else (Some (AwaitStream a), s))"
| "resume (AwaitFinish a) Done s = (Some AwaitCooldown, s\<lparr> currentPlayback := None \<rparr>)"
| "resume (AwaitFinish a) Fail s = (Some AwaitCooldown, s)"
| "resume AwaitCooldown Done s = loop_top s"
| "resume AwaitLeave Done s = (Some AwaitCleanupDelay, cleanup_flags s)"
| "resume AwaitLeave Fail s = (None, s)"
| "resume AwaitCleanupDelay Done s =
     (None, s\<lparr> isPlayingQueue := False, stopRequested := False \<rparr>)"
| "resume p _ s = (Some p, s)"

text \<open>Resuming the \<open>i\<close>-th suspended call; a call that has returned leaves the list.\<close>

definition resume_loop :: "nat \<Rightarrow> outcome \<Rightarrow> state \<Rightarrow> state" where
  "resume_loop i out s =
     (if i < length (loops s)
      then (case resume (loops s ! i) out s of
              (None, s') \<Rightarrow> s'\<lparr> loops := splice1 i (loops s') \<rparr>
            | (Some p, s') \<Rightarrow> s'\<lparr> loops := (loops s')[i := p] \<rparr>)
      else s)"

text \<open>
  A call of \<open>playQueue\<close> (lines 187-199) up to its first await: nothing happens when the flag
  is set; otherwise the flags are written and the acquisition of the session starts.
\<close>

definition playQueue :: "state \<Rightarrow> state" where
  "playQueue s =
     (if isPlayingQueue s then s
      else (let s1 = s\<lparr> isPlayingQueue := True, stopRequested := False \<rparr>
            in s1\<lparr> loops := loops s1 @ [if \<not> joined s1 then AwaitJoin else AwaitCreate False] \<rparr>))"

section \<open>The command handlers\<close>

text \<open>
  Lines 289-292 and 326-329: a new object with the generated uid is pushed into both arrays.
  \<open>generateUID\<close> draws at random; the uid drawn is a parameter.
\<close>

definition push_item :: "string \<Rightarrow> string \<Rightarrow> state \<Rightarrow> state" where
  "push_item u l s =
     (let a = nextRef s
      in s\<lparr> store := (store s)(a := \<lparr> uid = u, link = l \<rparr>), nextRef := Suc a,
            videoQueue := videoQueue s @ [a], originalQueue := originalQueue s @ [a] \<rparr>)"

text \<open>\<open>add\<close> (lines 282-293) up to the await of the reply; an empty link is an error.\<close>

definition add_cmd :: "string \<Rightarrow> string \<Rightarrow> state \<Rightarrow> state" where
  "add_cmd u l s = (if l = [] then s else push_item u l s)"

text \<open>
  \<open>batch\<close> (lines 297-331) from the list of lines on, each paired with the uid drawn for it;
  empty lines are dropped (line 320).
\<close>

definition batch_cmd :: "(string \<times> string) list \<Rightarrow> state \<Rightarrow> state" where
  "batch_cmd uls s =
     foldl (\<lambda>s' (u, l). push_item u l s') s (filter (\<lambda>(u, l). l \<noteq> []) uls)"

text \<open>
  \<open>remove\<close> (lines 350-358): the first index carrying the uid is looked up in each array;
  if either lookup fails nothing is changed, otherwise each array loses the element at its
  index and the element taken from \<open>videoQueue\<close> is reported.
\<close>

datatype reply = NotFound | Removed ref

definition removeById :: "string \<Rightarrow> state \<Rightarrow> reply \<times> state" where
  "removeById u s =
     (case findIndex (\<lambda>a. uid (store s a) = u) (videoQueue s) of
        None \<Rightarrow> (NotFound, s)
      | Some i \<Rightarrow>
          (case findIndex (\<lambda>a. uid (store s a) = u) (originalQueue s) of
             None \<Rightarrow> (NotFound, s)
           | Some j \<Rightarrow>
               (Removed (videoQueue s ! i),
                s\<lparr> videoQueue := splice1 i (videoQueue s),
                   originalQueue := splice1 j (originalQueue s) \<rparr>)))"

text \<open>\<open>PCancelable.cancel\<close>: a pending promise is rejected, a settled one is left alone.\<close>

definition cancel :: "handle \<Rightarrow> handle" where
  "cancel h = (case h of Pending \<Rightarrow> Rejected | _ \<Rightarrow> h)"

text \<open>
  \<open>stop\<close> (lines 374-381) up to the await of \<open>leaveVoice\<close> inside \<open>cleanupStreamStatus\<close>, and
  the whole handler, which goes on with \<open>cleanup_flags\<close> once \<open>leaveVoice\<close> has resolved.
\<close>

definition stop_cmd :: "state \<Rightarrow> state" where
  "stop_cmd s =
     (let s1 = s\<lparr> stopRequested := True \<rparr>;
          s2 = (case currentPlayback s1 of
                  None \<Rightarrow> s1
                | Some h \<Rightarrow> s1\<lparr> currentPlayback := Some (cancel h) \<rparr>)
      in s2\<lparr> videoQueue := [], originalQueue := [] \<rparr>)"


section \<open>Events and runs\<close>

text \<open>
  What can happen next: the synchronous part of a command handler, the continuation of
  \<open>add\<close> or \<open>batch\<close> after the reply (\<open>if (!isPlayingQueue) playQueue()\<close>, lines 294 and 332),
  a direct call of \<open>playQueue\<close>, the continuation of \<open>stop\<close> after \<open>leaveVoice\<close>, or the
  resumption of a suspended call of \<open>playQueue\<close>. The \<open>list\<close>, \<open>help\<close>, \<open>download\<close> and
  \<open>random\<close> commands touch neither the queues nor the loop flags and are left out.
\<close>

datatype event =
    CmdAdd string string
  | CmdBatch "(string \<times> string) list"
  | StartIfIdle
  | CallPlayQueue
  | CmdRemove string
  | CmdLoop bool
  | CmdStop
  | StopCleanup
  | Resume nat outcome

fun step :: "event \<Rightarrow> state \<Rightarrow> state" where
  "step (CmdAdd u l) s = add_cmd u l s"
| "step (CmdBatch uls) s = batch_cmd uls s"
| "step StartIfIdle s = (if \<not> isPlayingQueue s then playQueue s else s)"
| "step CallPlayQueue s = playQueue s"
| "step (CmdRemove u) s = (if u = [] then s else snd (removeById u s))"
| "step (CmdLoop b) s = s\<lparr> loopEnabled := b \<rparr>"
| "step CmdStop s = stop_cmd s"
| "step StopCleanup s = cleanup_flags s"
| "step (Resume i out) s = resume_loop i out s"

definition run :: "event list \<Rightarrow> state \<Rightarrow> state" where
  "run es s = foldl (\<lambda>s' e. step e s') s es"

text \<open>
  The five queue operations of the specification, each the code fragment that performs it:
  the pushes of \<open>add\<close> and \<open>batch\<close>, \<open>videoQueue.shift()\<close> (line 213), the removal of
  \<open>remove\<close>, the refill of line 208 and the clearing of lines 379-380.
\<close>

datatype qop = Enqueue string string | EnqueueBatch "(string \<times> string) list" | PopFront
  | RemoveById string | Refill | Clear

fun apply_qop :: "qop \<Rightarrow> state \<Rightarrow> state" where
  "apply_qop (Enqueue u l) s = push_item u l s"
| "apply_qop (EnqueueBatch uls) s = batch_cmd uls s"
| "apply_qop PopFront s = s\<lparr> videoQueue := tl (videoQueue s) \<rparr>"
| "apply_qop (RemoveById u) s = snd (removeById u s)"
| "apply_qop Refill s = s\<lparr> videoQueue := originalQueue s \<rparr>"
| "apply_qop Clear s = s\<lparr> videoQueue := [], originalQueue := [] \<rparr>"

definition run_qops :: "qop list \<Rightarrow> state \<Rightarrow> state" where
  "run_qops qs s = foldl (\<lambda>s' q. apply_qop q s') s qs"

section \<open>Predicates of the statements\<close>

text \<open>At most one loop, and the flag is set while there is one.\<close>

definition single_flight :: "state \<Rightarrow> bool" where
  "single_flight s = ((loops s \<noteq> [] \<longrightarrow> isPlayingQueue s) \<and> length (loops s) \<le> 1)"


text \<open>The item a suspended loop holds in its variable \<open>next\<close>.\<close>

fun cur :: "pc \<Rightarrow> ref option" where
  "cur (AwaitFetch a) = Some a"
| "cur (AwaitAnnounce a v) = Some a"
| "cur (AwaitStream a) = Some a"
| "cur (AwaitFinish a) = Some a"
| "cur p = None"

definition queue_pair :: "state \<Rightarrow> bool" where
  "queue_pair s =
     (distinct (originalQueue s) \<and> subseq (videoQueue s) (originalQueue s)
      \<and> (\<forall>a\<in>set (originalQueue s). a < nextRef s))"

definition popped_ok :: "pc option \<Rightarrow> state \<Rightarrow> bool" where
  "popped_ok r s =
     (\<forall>p a. r = Some p \<longrightarrow> cur p = Some a \<longrightarrow> a < nextRef s \<and> a \<notin> set (videoQueue s))"

definition cur_popped :: "state \<Rightarrow> bool" where
  "cur_popped s =
     (\<forall>p\<in>set (loops s). \<forall>a. cur p = Some a \<longrightarrow> a < nextRef s \<and> a \<notin> set (videoQueue s))"

definition wf :: "state \<Rightarrow> bool" where
  "wf s = (single_flight s \<and> queue_pair s \<and> cur_popped s)"

text \<open>
  Runs in which no generated uid collides with one that is in the template at that moment.
\<close>

definition fresh_uid :: "string \<Rightarrow> state \<Rightarrow> bool" where
  "fresh_uid u s = (u \<notin> (\<lambda>a. uid (store s a)) ` set (originalQueue s))"

fun fresh_pushes :: "(string \<times> string) list \<Rightarrow> state \<Rightarrow> bool" where
  "fresh_pushes [] s = True"
| "fresh_pushes ((u, l) # xs) s = (fresh_uid u s \<and> fresh_pushes xs (push_item u l s))"

fun fresh_event :: "event \<Rightarrow> state \<Rightarrow> bool" where
  "fresh_event (CmdAdd u l) s = (l = [] \<or> fresh_uid u s)"
| "fresh_event (CmdBatch uls) s = fresh_pushes (filter (\<lambda>(u, l). l \<noteq> []) uls) s"
| "fresh_event e s = True"

fun fresh_run :: "event list \<Rightarrow> state \<Rightarrow> bool" where
  "fresh_run [] s = True"
| "fresh_run (e # es) s = (fresh_event e s \<and> fresh_run es (step e s))"

definition queue_suffix :: "state \<Rightarrow> bool" where
  "queue_suffix s =
     (suffix (videoQueue s) (originalQueue s)
      \<and> distinct (map (\<lambda>a. uid (store s a)) (originalQueue s))
      \<and> (\<forall>a\<in>set (originalQueue s). a < nextRef s))"

text \<open>The calls of \<open>streamLivestreamVideo\<close> made so far.\<close>

fun is_transmit :: "obs \<Rightarrow> bool" where
  "is_transmit (Transmit a v) = True"
| "is_transmit x = False"

definition transmitted :: "state \<Rightarrow> obs list" where
  "transmitted s = filter is_transmit (trace s)"

text \<open>
  Draining after a stop. \<open>before_playback\<close> holds of the awaits outside
  \<open>playVideoWithConnection\<close>; \<open>rank\<close> bounds the number of resumptions a loop at that await
  still needs once the stop flag is set. \<open>enabled\<close> singles out the outcomes of an await in
  which the two notices and \<open>leaveVoice\<close> resolve (acquisition, download and transmission may
  still fail), and \<open>enabled_run\<close> says that each outcome of a list is such an outcome of its
  await.
\<close>

fun rank :: "pc \<Rightarrow> nat" where
  "rank AwaitJoin = 4"
| "rank (AwaitCreate j) = 3"
| "rank (AwaitFetch a) = 3"
| "rank (AwaitAnnounce a v) = 6"
| "rank (AwaitStream a) = 5"
| "rank (AwaitFinish a) = 4"
| "rank AwaitCooldown = 3"
| "rank AwaitLeave = 2"
| "rank AwaitCleanupDelay = 1"

fun before_playback :: "pc \<Rightarrow> bool" where
  "before_playback (AwaitAnnounce a v) = False"
| "before_playback (AwaitStream a) = False"
| "before_playback (AwaitFinish a) = False"
| "before_playback p = True"

fun enabled :: "state \<Rightarrow> pc \<Rightarrow> outcome \<Rightarrow> bool" where
  "enabled s AwaitJoin out = (out = Done \<or> out = Fail)"
| "enabled s (AwaitCreate j) out = (out = Done \<or> out = Fail)"
| "enabled s (AwaitFetch a) out = (out \<noteq> Done \<and> out \<noteq> Cancelled)"
| "enabled s (AwaitStream a) out =
     (currentPlayback s = Some Pending \<and> (out = Done \<or> out = Fail)
      \<or> currentPlayback s = Some Rejected \<and> out = Cancelled)"
| "enabled s p out = (out = Done)"

fun enabled_run :: "outcome list \<Rightarrow> state \<Rightarrow> bool" where
  "enabled_run [] s = True"
| "enabled_run (out # outs) s =
     ((case loops s of [] \<Rightarrow> True | p # ps \<Rightarrow> enabled s p out)
      \<and> enabled_run outs (step (Resume 0 out) s))"


section \<open>Example runs\<close>

text \<open>Two local items in the queue, nothing started.\<close>

definition two_items :: state where
  "two_items = run [CmdAdd ''11111AAA'' ''a.mp4'', CmdAdd ''22222BBB'' ''b.mp4''] init"

text \<open>One local item added and the loop started: \<open>joinVoice\<close> is pending.\<close>

definition joining :: state where
  "joining = run [CmdAdd ''11111AAA'' ''a.mp4'', StartIfIdle] init"

text \<open>\<open>stop\<close> arrives while \<open>joinVoice\<close> is pending; afterwards everything resolves.\<close>

definition stopping :: state where
  "stopping = step CmdStop joining"

definition stopped_early :: state where
  "stopped_early = run [CmdAdd ''11111AAA'' ''a.mp4'', StartIfIdle, CmdStop, StopCleanup,
                        Resume 0 Done, Resume 0 Done, Resume 0 Done, Resume 0 Done] init"

text \<open>
  One local item, popped and handed to \<open>playVideoWithConnection\<close>: the now-playing notice is
  pending, nothing has been transmitted yet.
\<close>

definition announcing :: state where
  "announcing = run [CmdAdd ''11111AAA'' ''a.mp4'', StartIfIdle, Resume 0 Done, Resume 0 Done] init"

text \<open>Two local items, the first being transmitted; then \<open>stop\<close> cancels the playback.\<close>

definition streaming :: state where
  "streaming = run [CmdAdd ''11111AAA'' ''a.mp4'', CmdAdd ''22222BBB'' ''b.mp4'', StartIfIdle,
                    Resume 0 Done, Resume 0 Done, Resume 0 Done] init"

definition cancelled :: state where
  "cancelled = step CmdStop streaming"

text \<open>A remote item in front of a local one, the download pending.\<close>

definition fetching :: state where
  "fetching = run [CmdAdd ''11111AAA'' ''http://x/video'', CmdAdd ''22222BBB'' ''b.mp4'',
                   StartIfIdle, Resume 0 Done, Resume 0 Done] init"

text \<open>A local item played, a remote one next, the loop in its cooldown.\<close>

definition cooling :: state where
  "cooling = run [CmdAdd ''11111AAA'' ''a.mp4'', CmdAdd ''22222BBB'' ''http://x/video'',
                  StartIfIdle, Resume 0 Done, Resume 0 Done, Resume 0 Done, Resume 0 Done,
                  Resume 0 Done] init"

text \<open>A single remote item whose download fails; the loop runs to its end.\<close>

definition fetch_failed_run :: state where
  "fetch_failed_run = run [CmdAdd ''11111AAA'' ''http://x/video'', StartIfIdle,
                           Resume 0 Done, Resume 0 Done, Resume 0 Fail,
                           Resume 0 Done, Resume 0 Done] init"

text \<open>
  Loop mode, two items with links \<open>la\<close> and \<open>lb\<close>, both fetched (to \<open>pa\<close> and \<open>pb\<close>) and played
  once; the run ends in the cooldown after the second item.
\<close>

definition replay_prefix ::
  "string \<Rightarrow> string \<Rightarrow> string \<Rightarrow> string \<Rightarrow> string \<Rightarrow> string \<Rightarrow> event list" where
  "replay_prefix ua la ub lb pa pb =
     [CmdLoop True, CmdAdd ua la, CmdAdd ub lb, StartIfIdle, Resume 0 Done, Resume 0 Done,
      Resume 0 (Local pa), Resume 0 Done, Resume 0 Done, Resume 0 Done, Resume 0 Done,
      Resume 0 (Local pb), Resume 0 Done, Resume 0 Done, Resume 0 Done]"

text \<open>
  Three local items, the third having drawn the uid of the first; the first has been popped
  and is being announced.
\<close>

definition collision :: state where
  "collision = run [CmdAdd ''11111AAA'' ''a.mp4'', CmdAdd ''22222BBB'' ''b.mp4'',
                    CmdAdd ''11111AAA'' ''c.mp4'', StartIfIdle, Resume 0 Done, Resume 0 Done] init"

text \<open>
  Loop mode, two local items, both played once, the first being announced for the second
  time: the second item is back in the working queue.
\<close>

definition second_pass :: state where
  "second_pass = run [CmdLoop True, CmdAdd ''11111AAA'' ''a.mp4'', CmdAdd ''22222BBB'' ''b.mp4'',
                      StartIfIdle, Resume 0 Done, Resume 0 Done,
                      Resume 0 Done, Resume 0 Done, Resume 0 Done, Resume 0 Done,
                      Resume 0 Done, Resume 0 Done, Resume 0 Done, Resume 0 Done] init"

section \<open>Facts about the loop head and about runs\<close>

declare loop_top.simps [simp del]

lemma loop_top_unfold:
  "loop_top s =
     (if stopRequested s then cleanup_begin s
      else if videoQueue s = [] \<and> \<not> (loopEnabled s \<and> originalQueue s \<noteq> []) then cleanup_begin s
      else (let q = (if videoQueue s = [] then originalQueue s else videoQueue s);
                a = hd q;
                s2 = s\<lparr> videoQueue := tl q, trace := trace s @ [Popped a (link (store s a))] \<rparr>
            in if startsWith (link (store s a)) ''http''
               then (Some (AwaitFetch a), s2)
               else play_item a s2))"
  by (subst loop_top.simps) (auto simp: iteration_def Let_def split: list.splits)

lemma iteration_result:
  "iteration a rest s =
     (if startsWith (link (store s a)) ''http''
      then (Some (AwaitFetch a),
            s\<lparr> videoQueue := rest, trace := trace s @ [Popped a (link (store s a))] \<rparr>)
      else if stopRequested s
      then (Some AwaitLeave,
            s\<lparr> videoQueue := rest, trace := trace s @ [Popped a (link (store s a))] \<rparr>)
      else (Some (AwaitAnnounce a (link (store s a))),
            s\<lparr> videoQueue := rest, trace := trace s @ [Popped a (link (store s a))],
               speaking := True, videoStatus := True \<rparr>))"
  by (simp add: iteration_def play_item_def cleanup_begin_def playVideoWithConnection_def Let_def)

lemma loop_top_stop: "stopRequested s \<Longrightarrow> loop_top s = (Some AwaitLeave, s)"
  by (simp add: loop_top_unfold cleanup_begin_def)

lemma loop_top_exhausted:
  "videoQueue s = [] \<Longrightarrow> \<not> (loopEnabled s \<and> originalQueue s \<noteq> [])
     \<Longrightarrow> loop_top s = (Some AwaitLeave, s)"
  by (simp add: loop_top_unfold cleanup_begin_def)

lemma loop_top_next:
  "\<not> stopRequested s \<Longrightarrow> videoQueue s = a # rest \<Longrightarrow> loop_top s = iteration a rest s"
  by (subst loop_top.simps) simp

lemma loop_top_refill:
  "\<not> stopRequested s \<Longrightarrow> videoQueue s = [] \<Longrightarrow> loopEnabled s \<Longrightarrow> originalQueue s = a # rest
     \<Longrightarrow> loop_top s = iteration a rest (s\<lparr> videoQueue := originalQueue s \<rparr>)"
  by (subst loop_top.simps) simp

lemma loop_top_shape:
  "loop_top s = (Some AwaitLeave, s)
   \<or> (\<exists>a rest t. (t = s \<or> t = s\<lparr> videoQueue := originalQueue s \<rparr>)
          \<and> \<not> stopRequested s \<and> loop_top s = iteration a rest t
          \<and> (videoQueue s = a # rest \<or> videoQueue s = [] \<and> originalQueue s = a # rest))"
proof (cases "stopRequested s")
  case True
  then show ?thesis by (simp add: loop_top_stop)
next
  case False
  note ns = this
  show ?thesis
  proof (cases "videoQueue s")
    case (Cons a rest)
    with ns loop_top_next[OF ns Cons] show ?thesis by auto
  next
    case Nil
    show ?thesis
    proof (cases "loopEnabled s \<and> originalQueue s \<noteq> []")
      case False
      with Nil show ?thesis using loop_top_exhausted[of s] by blast
    next
      case True
      then obtain a rest where o: "originalQueue s = a # rest" by (cases "originalQueue s") auto
      with True ns Nil loop_top_refill[OF ns Nil _ o] show ?thesis by auto
    qed
  qed
qed

lemma loop_top_transmitted: "loop_top s = (r, s') \<Longrightarrow> transmitted s' = transmitted s"
  using loop_top_shape[of s]
  by (auto simp: iteration_result transmitted_def split: if_splits)

lemma iteration_loops_indep:
  "iteration a rest (s\<lparr> loops := ls \<rparr>)
     = (fst (iteration a rest s), (snd (iteration a rest s))\<lparr> loops := ls \<rparr>)"
  by (simp add: iteration_result)

lemma loop_top_loops_indep:
  "loop_top (s\<lparr> loops := ls \<rparr>) = (fst (loop_top s), (snd (loop_top s))\<lparr> loops := ls \<rparr>)"
proof (cases "stopRequested s")
  case True
  then show ?thesis by (simp add: loop_top_stop)
next
  case False
  note ns = this
  show ?thesis
  proof (cases "videoQueue s")
    case (Cons a rest)
    with ns show ?thesis by (simp add: loop_top_next iteration_loops_indep)
  next
    case Nil
    show ?thesis
    proof (cases "loopEnabled s \<and> originalQueue s \<noteq> []")
      case False
      with Nil show ?thesis by (simp add: loop_top_exhausted)
    next
      case True
      then obtain a rest where o: "originalQueue s = a # rest" by (cases "originalQueue s") auto
      have "loop_top s = iteration a rest (s\<lparr> videoQueue := originalQueue s \<rparr>)"
        using ns Nil True o by (simp add: loop_top_refill)
      moreover have "loop_top (s\<lparr> loops := ls \<rparr>)
          = iteration a rest (s\<lparr> loops := ls, videoQueue := originalQueue s \<rparr>)"
        using ns Nil True o loop_top_refill[of "s\<lparr> loops := ls \<rparr>" a rest] by simp
      ultimately show ?thesis
        by (simp add: iteration_result)
    qed
  qed
qed

lemma loop_top_frame:
  assumes "loop_top s = (r, s')"
  shows "r \<noteq> None" "loops s' = loops s" "isPlayingQueue s' = isPlayingQueue s"
    "originalQueue s' = originalQueue s" "store s' = store s" "nextRef s' = nextRef s"
    "stopRequested s' = stopRequested s" "loopEnabled s' = loopEnabled s"
    "currentPlayback s' = currentPlayback s" "joined s' = joined s"
  using assms
  by (auto simp: loop_top_unfold play_item_def cleanup_begin_def playVideoWithConnection_def
      Let_def split: if_splits)

lemma resume_frame:
  assumes "resume p out s = (r, s')"
  shows "loops s' = loops s" "originalQueue s' = originalQueue s" "nextRef s' = nextRef s"
    "r \<noteq> None \<Longrightarrow> isPlayingQueue s' = isPlayingQueue s"
  using assms
  by (cases p; cases out;
      auto simp: play_item_def cleanup_begin_def playVideoWithConnection_def finish_playback_def
        cleanup_flags_def split: if_splits dest: loop_top_frame)+

lemma run_Nil [simp]: "run [] s = s"
  by (simp add: run_def)

lemma run_Cons [simp]: "run (e # es) s = run es (step e s)"
  by (simp add: run_def)

lemma run_append: "run (es @ es') s = run es' (run es s)"
  by (simp add: run_def)

lemma startsWith_http_nonempty: "startsWith l ''http'' \<Longrightarrow> l \<noteq> []"
  by (auto simp: startsWith_def)

section \<open>Searching and splicing\<close>

lemma findIndex_None_iff: "findIndex P xs = None \<longleftrightarrow> (\<forall>x\<in>set xs. \<not> P x)"
  by (induction xs) (auto split: option.splits)

lemma findIndex_Some:
  "findIndex P xs = Some i \<Longrightarrow> i < length xs \<and> P (xs ! i) \<and> (\<forall>j<i. \<not> P (xs ! j))"
proof (induction xs arbitrary: i)
  case Nil
  then show ?case by simp
next
  case (Cons x xs)
  show ?case
  proof (cases "P x")
    case True
    with Cons.prems show ?thesis by simp
  next
    case False
    with Cons.prems obtain k where k: "findIndex P xs = Some k" "i = Suc k"
      by (auto split: option.splits)
    from Cons.IH[OF k(1)] False k(2) show ?thesis
      by (auto simp: nth_Cons split: nat.splits)
  qed
qed

lemma findIndex_unique:
  assumes "distinct (map f xs)" "a \<in> set xs" "f a = u"
  shows "\<exists>i. findIndex (\<lambda>x. f x = u) xs = Some i \<and> xs ! i = a"
  using assms
proof (induction xs)
  case Nil
  then show ?case by simp
next
  case (Cons x xs)
  show ?case
  proof (cases "f x = u")
    case True
    with Cons.prems have "x = a" by (auto simp: image_iff)
    with True show ?thesis by simp
  next
    case False
    with Cons.prems have "a \<in> set xs" "distinct (map f xs)" by auto
    from Cons.IH[OF this(2) this(1) Cons.prems(3)] False show ?thesis by auto
  qed
qed

lemma findIndex_append:
  "\<forall>x\<in>set pre. \<not> P x \<Longrightarrow>
     findIndex P (pre @ ys) = map_option (\<lambda>i. length pre + i) (findIndex P ys)"
proof (induction pre)
  case Nil
  then show ?case by (cases "findIndex P ys") simp_all
next
  case (Cons x pre)
  then show ?case by (cases "findIndex P ys") simp_all
qed

lemma splice1_Cons_0 [simp]: "splice1 0 (x # xs) = xs"
  by (simp add: splice1_def)

lemma splice1_Cons_Suc [simp]: "splice1 (Suc i) (x # xs) = x # splice1 i xs"
  by (simp add: splice1_def)

lemma splice1_append: "splice1 (length pre + i) (pre @ ys) = pre @ splice1 i ys"
  by (induction pre) auto

lemma splice1_findIndex_remove1:
  "findIndex P xs = Some i \<Longrightarrow> splice1 i xs = remove1 (xs ! i) xs"
proof (induction xs arbitrary: i)
  case Nil
  then show ?case by simp
next
  case (Cons x xs)
  show ?case
  proof (cases "P x")
    case True
    with Cons.prems show ?thesis by simp
  next
    case False
    with Cons.prems obtain k where k: "findIndex P xs = Some k" "i = Suc k"
      by (auto split: option.splits)
    from findIndex_Some[OF k(1)] False have "xs ! k \<noteq> x" by auto
    with Cons.IH[OF k(1)] k(2) show ?thesis by simp
  qed
qed

lemma subseq_set: "subseq xs ys \<Longrightarrow> set xs \<subseteq> set ys"
  by (induction rule: list_emb.induct) auto

lemma subseq_distinct: "subseq xs ys \<Longrightarrow> distinct ys \<Longrightarrow> distinct xs"
proof (induction rule: list_emb.induct)
  case (list_emb_Nil ys)
  then show ?case by simp
next
  case (list_emb_Cons xs ys y)
  then show ?case by simp
next
  case (list_emb_Cons2 x y xs ys)
  then show ?case using subseq_set[of xs ys] by auto
qed

lemma subseq_splice1_self: "subseq (splice1 i xs) xs"
proof (induction xs arbitrary: i)
  case Nil
  then show ?case by (simp add: splice1_def)
next
  case (Cons x xs)
  then show ?case by (cases i) auto
qed

lemma subseq_splice1:
  "subseq p t \<Longrightarrow> findIndex P p = Some i \<Longrightarrow> findIndex P t = Some j
     \<Longrightarrow> subseq (splice1 i p) (splice1 j t)"
proof (induction arbitrary: i j rule: list_emb.induct)
  case (list_emb_Nil ys)
  then show ?case by simp
next
  case (list_emb_Cons xs ys y)
  show ?case
  proof (cases "P y")
    case True
    with list_emb_Cons.prems have "j = 0" by simp
    moreover have "subseq (splice1 i xs) ys"
      using subseq_splice1_self list_emb_Cons.hyps by (rule subseq_order.order_trans)
    ultimately show ?thesis by simp
  next
    case False
    with list_emb_Cons.prems obtain k where k: "findIndex P ys = Some k" "j = Suc k"
      by (auto split: option.splits)
    from list_emb_Cons.IH[OF list_emb_Cons.prems(1) k(1)] k(2) show ?thesis by auto
  qed
next
  case (list_emb_Cons2 x y xs ys)
  then have xy: "x = y" by simp
  show ?case
  proof (cases "P x")
    case True
    with list_emb_Cons2.prems xy have "i = 0" "j = 0" by auto
    with list_emb_Cons2.hyps xy show ?thesis by simp
  next
    case False
    with list_emb_Cons2.prems xy obtain k l where
      k: "findIndex P xs = Some k" "i = Suc k" "findIndex P ys = Some l" "j = Suc l"
      by (auto split: option.splits)
    from list_emb_Cons2.IH[OF k(1) k(3)] k(2) k(4) xy show ?thesis by auto
  qed
qed

section \<open>The example runs, evaluated\<close>

lemmas eval_defs = init_def add_cmd_def push_item_def playQueue_def resume_loop_def
  loop_top_unfold play_item_def playVideoWithConnection_def cleanup_begin_def cleanup_flags_def
  finish_playback_def startsWith_def stop_cmd_def cancel_def Let_def

lemma two_items_queues:
  "videoQueue two_items = [0, Suc 0]" "originalQueue two_items = [0, Suc 0]"
  "uid (store two_items 0) = ''11111AAA''" "uid (store two_items (Suc 0)) = ''22222BBB''"
  by (simp_all add: two_items_def init_def add_cmd_def push_item_def)

lemma joining_facts:
  "loops joining = [AwaitJoin]" "isPlayingQueue joining" "videoQueue joining = [0]"
  "trace joining = []" "\<not> stopRequested joining"
  by (simp_all add: joining_def eval_defs)

lemma streaming_facts:
  "loops streaming = [AwaitStream 0]" "currentPlayback streaming = Some Pending"
  "videoQueue streaming = [Suc 0]" "originalQueue streaming = [0, Suc 0]"
  "\<not> stopRequested streaming"
  "uid (store streaming 0) = ''11111AAA''" "uid (store streaming (Suc 0)) = ''22222BBB''"
  "link (store streaming (Suc 0)) = ''b.mp4''"
  "trace streaming = [SessionAcquired, Popped 0 ''a.mp4'', Transmit 0 ''a.mp4'']"
  by (simp_all add: streaming_def eval_defs)

lemma fetching_facts:
  "loops fetching = [AwaitFetch 0]" "videoQueue fetching = [Suc 0]"
  "originalQueue fetching = [0, Suc 0]" "\<not> stopRequested fetching"
  "link (store fetching 0) = ''http://x/video''" "link (store fetching (Suc 0)) = ''b.mp4''"
  "trace fetching = [SessionAcquired, Popped 0 ''http://x/video'']"
  by (simp_all add: fetching_def eval_defs)

lemma cooling_facts:
  "loops cooling = [AwaitCooldown]" "videoQueue cooling = [Suc 0]"
  "\<not> stopRequested cooling" "link (store cooling (Suc 0)) = ''http://x/video''"
  by (simp_all add: cooling_def eval_defs)

lemma collision_facts:
  "videoQueue collision = [Suc 0, Suc (Suc 0)]" "originalQueue collision = [0, Suc 0, Suc (Suc 0)]"
  "uid (store collision 0) = ''11111AAA''" "uid (store collision (Suc 0)) = ''22222BBB''"
  "uid (store collision (Suc (Suc 0))) = ''11111AAA''"
  "loops collision = [AwaitAnnounce 0 ''a.mp4'']"
  by (simp_all add: collision_def eval_defs)

section \<open>Single flight\<close>

lemma push_item_frame [simp]:
  "loops (push_item u l s) = loops s" "isPlayingQueue (push_item u l s) = isPlayingQueue s"
  by (simp_all add: push_item_def Let_def)

lemma batch_cmd_frame [simp]:
  "loops (batch_cmd uls s) = loops s" "isPlayingQueue (batch_cmd uls s) = isPlayingQueue s"
proof -
  have "loops (foldl (\<lambda>s' (u, l). push_item u l s') s xs) = loops s
      \<and> isPlayingQueue (foldl (\<lambda>s' (u, l). push_item u l s') s xs) = isPlayingQueue s" for xs
    by (induction xs arbitrary: s) (auto simp: case_prod_beta)
  then show "loops (batch_cmd uls s) = loops s" "isPlayingQueue (batch_cmd uls s) = isPlayingQueue s"
    by (simp_all add: batch_cmd_def)
qed

lemma removeById_frame [simp]:
  "loops (snd (removeById u s)) = loops s" "isPlayingQueue (snd (removeById u s)) = isPlayingQueue s"
  by (simp_all add: removeById_def split: option.splits)

lemma stop_cmd_frame [simp]:
  "loops (stop_cmd s) = loops s" "isPlayingQueue (stop_cmd s) = isPlayingQueue s"
  by (simp_all add: stop_cmd_def Let_def split: option.splits)

lemma step_single_flight: "single_flight s \<Longrightarrow> single_flight (step e s)"
proof (cases e)
  case (Resume i out)
  assume sf: "single_flight s"
  show ?thesis
  proof (cases "i < length (loops s)")
    case False
    with sf Resume show ?thesis by (simp add: resume_loop_def)
  next
    case True
    with sf obtain p where p: "loops s = [p]" "i = 0" "isPlayingQueue s"
      by (cases "loops s") (auto simp: single_flight_def)
    obtain r s' where r: "resume p out s = (r, s')" by (cases "resume p out s")
    from resume_frame[OF r] p r Resume show ?thesis
      by (cases r) (auto simp: single_flight_def resume_loop_def)
  qed
qed (auto simp: single_flight_def add_cmd_def playQueue_def Let_def cleanup_flags_def)

lemma run_single_flight: "single_flight s \<Longrightarrow> single_flight (run es s)"
  by (induction es arbitrary: s) (auto simp: step_single_flight)

lemma init_single_flight: "single_flight init"
  by (simp add: single_flight_def init_def)

text \<open>
  Claim C1. In every state reached from the initial one by any sequence of commands and
  loop resumptions at most one playback loop exists, and a loop exists only while
  \<open>isPlayingQueue\<close> is set; and whenever \<open>isPlayingQueue\<close> is set, calling \<open>playQueue\<close> (directly
  or through the guarded call of the \<open>add\<close> and \<open>batch\<close> handlers) returns the state unchanged.
\<close>

theorem playQueue_single_flight:
  "length (loops (run es init)) \<le> 1
   \<and> (loops (run es init) \<noteq> [] \<longrightarrow> isPlayingQueue (run es init))
   \<and> (isPlayingQueue s \<longrightarrow> playQueue s = s \<and> step CallPlayQueue s = s \<and> step StartIfIdle s = s)"
  using run_single_flight[OF init_single_flight, of es]
  by (simp add: single_flight_def playQueue_def)

theorem playQueue_single_flight_witness:
  "isPlayingQueue joining \<and> loops joining \<noteq> [] \<and> playQueue joining = joining
   \<and> length (loops (run [CmdAdd ''11111AAA'' ''a.mp4'', StartIfIdle, CallPlayQueue] init)) \<le> 1"
proof -
  have a: "isPlayingQueue joining" "loops joining = [AwaitJoin]"
    by (simp_all add: joining_def init_def add_cmd_def push_item_def playQueue_def)
  from a playQueue_single_flight[of "[CmdAdd ''11111AAA'' ''a.mp4'', StartIfIdle, CallPlayQueue]" joining]
  show ?thesis by simp
qed

section \<open>The pair of queues\<close>

lemma queue_pair_push: "queue_pair s \<Longrightarrow> queue_pair (push_item u l s)"
  by (auto simp: queue_pair_def push_item_def Let_def less_Suc_eq intro: list_emb_append_mono)

lemma queue_pair_foldl_push:
  "queue_pair s \<Longrightarrow> queue_pair (foldl (\<lambda>s' (u, l). push_item u l s') s xs)"
  by (induction xs arbitrary: s) (auto simp: case_prod_beta queue_pair_push)

lemma queue_pair_batch: "queue_pair s \<Longrightarrow> queue_pair (batch_cmd uls s)"
  by (simp add: batch_cmd_def queue_pair_foldl_push)

lemma queue_pair_remove: "queue_pair s \<Longrightarrow> queue_pair (snd (removeById u s))"
proof -
  assume q: "queue_pair s"
  show ?thesis
  proof (cases "findIndex (\<lambda>a. uid (store s a) = u) (videoQueue s)")
    case None
    with q show ?thesis by (simp add: removeById_def)
  next
    case (Some i)
    note i = this
    show ?thesis
    proof (cases "findIndex (\<lambda>a. uid (store s a) = u) (originalQueue s)")
      case None
      with q i show ?thesis by (simp add: removeById_def)
    next
      case (Some j)
      from q have "subseq (splice1 i (videoQueue s)) (splice1 j (originalQueue s))"
        using subseq_splice1[OF _ i Some] by (simp add: queue_pair_def)
      moreover have sj: "subseq (splice1 j (originalQueue s)) (originalQueue s)"
        by (rule subseq_splice1_self)
      moreover from sj q have "distinct (splice1 j (originalQueue s))"
        by (auto simp: queue_pair_def dest: subseq_distinct)
      moreover from sj have "set (splice1 j (originalQueue s)) \<subseteq> set (originalQueue s)"
        by (rule subseq_set)
      ultimately show ?thesis using q i Some
        by (auto simp: removeById_def queue_pair_def)
    qed
  qed
qed

lemma queue_pair_tl: "queue_pair s \<Longrightarrow> queue_pair (s\<lparr> videoQueue := tl (videoQueue s) \<rparr>)"
  by (cases "videoQueue s") (auto simp: queue_pair_def dest: subseq_Cons')

lemma queue_pair_qop: "queue_pair s \<Longrightarrow> queue_pair (apply_qop q s)"
proof (cases q)
  case Refill
  assume "queue_pair s"
  with Refill show ?thesis by (simp add: queue_pair_def)
next
  case Clear
  then show ?thesis by (simp add: queue_pair_def)
qed (auto simp: queue_pair_push queue_pair_batch queue_pair_remove queue_pair_tl)

lemma queue_pair_cong:
  "queue_pair s \<Longrightarrow> originalQueue s' = originalQueue s \<Longrightarrow> videoQueue s' = videoQueue s
     \<Longrightarrow> nextRef s' = nextRef s \<Longrightarrow> queue_pair s'"
  by (simp add: queue_pair_def)

lemma loop_top_queue:
  assumes "loop_top s = (r, s')" "queue_pair s"
  shows "queue_pair s'"
    and "\<And>p a. r = Some p \<Longrightarrow> cur p = Some a \<Longrightarrow> a < nextRef s' \<and> a \<notin> set (videoQueue s')"
proof -
  have *: "queue_pair (s\<lparr> videoQueue := tl q \<rparr>) \<and> (q \<noteq> [] \<longrightarrow> hd q < nextRef s \<and> hd q \<notin> set (tl q))"
    if "q = videoQueue s \<or> q = originalQueue s" for q
  proof (cases q)
    case Nil
    with assms(2) show ?thesis by (simp add: queue_pair_def)
  next
    case (Cons x xs)
    from that assms(2) have "subseq q (originalQueue s)" by (auto simp: queue_pair_def)
    with Cons have "subseq xs (originalQueue s)" "x \<in> set (originalQueue s)" "distinct q"
      using assms(2) by (auto simp: queue_pair_def dest: subseq_Cons' subseq_set subseq_distinct)
    with Cons assms(2) show ?thesis by (auto simp: queue_pair_def)
  qed
  from assms(1) *[of "videoQueue s"] *[of "originalQueue s"] assms(2)
  show "queue_pair s'"
    by (auto simp: loop_top_unfold play_item_def cleanup_begin_def playVideoWithConnection_def
        Let_def queue_pair_def split: if_splits)
  fix p a assume "r = Some p" "cur p = Some a"
  with assms(1) *[of "videoQueue s"] *[of "originalQueue s"]
  show "a < nextRef s' \<and> a \<notin> set (videoQueue s')"
    by (auto simp: loop_top_unfold play_item_def cleanup_begin_def playVideoWithConnection_def
        Let_def split: if_splits)
qed

lemma queue_pair_upd [simp]:
  "queue_pair (s\<lparr> trace := t \<rparr>) = queue_pair s"
  "queue_pair (s\<lparr> joined := b \<rparr>) = queue_pair s"
  "queue_pair (s\<lparr> store := st \<rparr>) = queue_pair s"
  "queue_pair (s\<lparr> currentPlayback := h \<rparr>) = queue_pair s"
  "queue_pair (s\<lparr> isPlayingQueue := b \<rparr>) = queue_pair s"
  "queue_pair (s\<lparr> stopRequested := b \<rparr>) = queue_pair s"
  "queue_pair (s\<lparr> speaking := b \<rparr>) = queue_pair s"
  "queue_pair (s\<lparr> videoStatus := b \<rparr>) = queue_pair s"
  "queue_pair (s\<lparr> activity := ac \<rparr>) = queue_pair s"
  "queue_pair (s\<lparr> loops := ls \<rparr>) = queue_pair s"
  "queue_pair (s\<lparr> loopEnabled := b \<rparr>) = queue_pair s"
  "queue_pair (cleanup_flags s) = queue_pair s"
  by (simp_all add: queue_pair_def cleanup_flags_def)

lemma popped_ok_simps [simp]:
  "popped_ok None s"
  "popped_ok (Some p) s = (\<forall>a. cur p = Some a \<longrightarrow> a < nextRef s \<and> a \<notin> set (videoQueue s))"
  by (simp_all add: popped_ok_def)

lemma loop_top_ok:
  "loop_top t = (r, s') \<Longrightarrow> queue_pair t \<Longrightarrow> queue_pair s' \<and> popped_ok r s'"
  using loop_top_queue[of t r s'] by (auto simp: popped_ok_def)

lemma play_item_ok:
  "play_item a t = (r, s') \<Longrightarrow> queue_pair t \<Longrightarrow> a < nextRef t \<Longrightarrow> a \<notin> set (videoQueue t)
     \<Longrightarrow> queue_pair s' \<and> popped_ok r s'"
  by (auto simp: play_item_def cleanup_begin_def playVideoWithConnection_def queue_pair_def
      split: if_splits)

lemma resume_ok:
  assumes "resume p out s = (r, s')" "queue_pair s" "popped_ok (Some p) s"
  shows "queue_pair s' \<and> popped_ok r s'"
proof (cases p)
  case AwaitJoin
  with assms show ?thesis by (cases out) auto
next
  case (AwaitCreate j)
  with assms show ?thesis by (cases out; cases j) (auto dest!: loop_top_ok)
next
  case (AwaitFetch a)
  with assms show ?thesis by (cases out) (auto dest!: loop_top_ok play_item_ok)
next
  case (AwaitAnnounce a v)
  with assms show ?thesis by (cases out) (auto simp: queue_pair_def)
next
  case (AwaitStream a)
  with assms show ?thesis
    by (cases out) (auto simp: finish_playback_def queue_pair_def split: if_splits)
next
  case (AwaitFinish a)
  with assms show ?thesis by (cases out) (auto simp: queue_pair_def)
next
  case AwaitCooldown
  with assms show ?thesis by (cases out) (auto dest!: loop_top_ok)
next
  case AwaitLeave
  with assms show ?thesis by (cases out) auto
next
  case AwaitCleanupDelay
  with assms show ?thesis by (cases out) auto
qed

lemma cur_popped_push: "cur_popped s \<Longrightarrow> cur_popped (push_item u l s)"
  by (auto simp: cur_popped_def push_item_def Let_def)

lemma wf_foldl_push:
  "queue_pair s \<and> cur_popped s \<Longrightarrow>
     queue_pair (foldl (\<lambda>s' (u, l). push_item u l s') s xs)
     \<and> cur_popped (foldl (\<lambda>s' (u, l). push_item u l s') s xs)"
  by (induction xs arbitrary: s) (auto simp: case_prod_beta queue_pair_push cur_popped_push)

lemma cur_popped_remove:
  assumes "cur_popped s"
  shows "cur_popped (snd (removeById u s))"
proof -
  have "set (splice1 i (videoQueue s)) \<subseteq> set (videoQueue s)" for i
    using subseq_splice1_self by (rule subseq_set)
  with assms show ?thesis
    by (auto simp: cur_popped_def removeById_def split: option.splits)
qed

lemma step_wf: "wf s \<Longrightarrow> wf (step e s)"
proof -
  assume w: "wf s"
  then have sf: "single_flight (step e s)"
    by (simp add: wf_def step_single_flight)
  have "queue_pair (step e s) \<and> cur_popped (step e s)"
  proof (cases e)
    case (CmdAdd u l)
    with w show ?thesis by (simp add: wf_def add_cmd_def queue_pair_push cur_popped_push)
  next
    case (CmdBatch uls)
    with w show ?thesis using wf_foldl_push[of s] by (simp add: wf_def batch_cmd_def)
  next
    case StartIfIdle
    with w show ?thesis
      by (auto simp: wf_def playQueue_def Let_def queue_pair_def cur_popped_def)
  next
    case CallPlayQueue
    with w show ?thesis
      by (auto simp: wf_def playQueue_def Let_def queue_pair_def cur_popped_def)
  next
    case (CmdRemove u)
    with w show ?thesis by (simp add: wf_def queue_pair_remove cur_popped_remove)
  next
    case (CmdLoop b)
    with w show ?thesis by (simp add: wf_def cur_popped_def)
  next
    case CmdStop
    with w show ?thesis
      by (auto simp: wf_def stop_cmd_def Let_def queue_pair_def cur_popped_def split: option.splits)
  next
    case StopCleanup
    have "cur_popped (cleanup_flags s) = cur_popped s"
      by (simp add: cur_popped_def cleanup_flags_def)
    with w StopCleanup show ?thesis by (simp add: wf_def)
  next
    case (Resume i out)
    show ?thesis
    proof (cases "i < length (loops s)")
      case False
      with w Resume show ?thesis by (simp add: resume_loop_def wf_def)
    next
      case True
      with w obtain p where p: "loops s = [p]" "i = 0"
        by (cases "loops s") (auto simp: wf_def single_flight_def)
      obtain r s' where r: "resume p out s = (r, s')" by (cases "resume p out s")
      from w p have "queue_pair s" "popped_ok (Some p) s"
        by (auto simp: wf_def cur_popped_def)
      from resume_ok[OF r this] resume_frame(1)[OF r] p r Resume show ?thesis
        by (cases r) (auto simp: resume_loop_def cur_popped_def queue_pair_def)
    qed
  qed
  with sf show ?thesis by (simp add: wf_def)
qed

lemma run_wf: "wf s \<Longrightarrow> wf (run es s)"
  by (induction es arbitrary: s) (auto simp: step_wf)

lemma init_wf: "wf init"
  by (simp add: wf_def single_flight_def queue_pair_def cur_popped_def init_def)

lemma init_queue_pair: "queue_pair init"
  by (simp add: queue_pair_def init_def)

lemma run_qops_queue_pair: "queue_pair s \<Longrightarrow> queue_pair (run_qops qs s)"
  unfolding run_qops_def by (induction qs arbitrary: s) (auto simp: queue_pair_qop)

lemma queue_pair_ids:
  assumes "queue_pair s"
  shows "subseq (videoQueue s) (originalQueue s)
     \<and> set (videoQueue s) \<subseteq> set (originalQueue s)
     \<and> (\<lambda>a. uid (store s a)) ` set (videoQueue s) \<subseteq> (\<lambda>a. uid (store s a)) ` set (originalQueue s)"
  using assms subseq_set[of "videoQueue s" "originalQueue s"] by (auto simp: queue_pair_def)

lemma queue_suffix_push:
  assumes "queue_suffix s" "fresh_uid u s"
  shows "queue_suffix (push_item u l s)"
proof -
  let ?st = "(store s)(nextRef s := \<lparr>uid = u, link = l\<rparr>)"
  from assms(1) have b: "\<forall>a\<in>set (originalQueue s). a \<noteq> nextRef s"
    by (auto simp: queue_suffix_def)
  then have m: "map (\<lambda>a. uid (?st a)) (originalQueue s)
      = map (\<lambda>a. uid (store s a)) (originalQueue s)"
    by (intro map_cong) auto
  have d0: "distinct (map (\<lambda>a. uid (store s a)) (originalQueue s))"
    and f0: "u \<notin> set (map (\<lambda>a. uid (store s a)) (originalQueue s))"
    using assms by (simp_all add: queue_suffix_def fresh_uid_def)
  have d1: "distinct (map (\<lambda>a. uid (?st a)) (originalQueue s))"
    using d0 unfolding m .
  have f1: "u \<notin> set (map (\<lambda>a. uid (?st a)) (originalQueue s))"
    using f0 unfolding m .
  have n: "uid (?st (nextRef s)) = u" by simp
  have "distinct (map (\<lambda>a. uid (?st a)) (originalQueue s @ [nextRef s]))"
    using d1 f1 n by (simp del: fun_upd_apply)
  moreover have "suffix (videoQueue s @ [nextRef s]) (originalQueue s @ [nextRef s])"
    using assms(1) by (simp add: queue_suffix_def)
  moreover have "\<forall>a\<in>set (originalQueue s @ [nextRef s]). a < Suc (nextRef s)"
    using assms(1) by (auto simp: queue_suffix_def less_Suc_eq)
  ultimately show ?thesis
    by (simp add: queue_suffix_def push_item_def Let_def del: fun_upd_apply)
qed

lemma queue_suffix_pushes:
  "queue_suffix s \<Longrightarrow> fresh_pushes xs s
     \<Longrightarrow> queue_suffix (foldl (\<lambda>s' (u, l). push_item u l s') s xs)"
  by (induction xs arbitrary: s) (auto simp: queue_suffix_push)

lemma queue_suffix_remove:
  assumes q: "queue_suffix s"
  shows "queue_suffix (snd (removeById u s))"
proof (cases "findIndex (\<lambda>a. uid (store s a) = u) (videoQueue s)")
  case None
  with q show ?thesis by (simp add: removeById_def)
next
  case (Some i)
  let ?P = "\<lambda>a. uid (store s a) = u"
  from q obtain pre where pre: "originalQueue s = pre @ videoQueue s"
    by (auto simp: queue_suffix_def suffix_def)
  from findIndex_Some[OF Some] have a: "videoQueue s ! i \<in> set (videoQueue s)" "?P (videoQueue s ! i)"
    by auto
  have np: "\<forall>x\<in>set pre. \<not> ?P x"
  proof
    fix x assume x: "x \<in> set pre"
    show "\<not> ?P x"
    proof
      assume "?P x"
      with a have e: "uid (store s x) = uid (store s (videoQueue s ! i))" by simp
      from q pre have d: "distinct (map (\<lambda>a. uid (store s a)) (pre @ videoQueue s))"
        by (simp add: queue_suffix_def)
      then have "(\<lambda>a. uid (store s a)) ` set pre \<inter> (\<lambda>a. uid (store s a)) ` set (videoQueue s) = {}"
        by simp
      with x a(1) e show False by (metis (no_types, lifting) disjoint_iff image_eqI)
    qed
  qed
  have j: "findIndex ?P (originalQueue s) = Some (length pre + i)"
    using findIndex_append[OF np, of "videoQueue s"] Some pre by simp
  have sp: "splice1 (length pre + i) (originalQueue s) = pre @ splice1 i (videoQueue s)"
    using splice1_append[of pre i "videoQueue s"] pre by simp
  have "subseq (map (\<lambda>a. uid (store s a)) (splice1 (length pre + i) (originalQueue s)))
          (map (\<lambda>a. uid (store s a)) (originalQueue s))"
    by (intro subseq_map subseq_splice1_self)
  with q have d: "distinct (map (\<lambda>a. uid (store s a)) (splice1 (length pre + i) (originalQueue s)))"
    by (auto simp: queue_suffix_def dest: subseq_distinct)
  have "set (splice1 (length pre + i) (originalQueue s)) \<subseteq> set (originalQueue s)"
    using subseq_splice1_self by (rule subseq_set)
  with q d sp Some j show ?thesis
    by (auto simp: removeById_def queue_suffix_def suffix_def)
qed

lemma queue_suffix_step_frame:
  assumes "queue_suffix s" "originalQueue s' = originalQueue s" "nextRef s' = nextRef s"
    "\<And>x. uid (store s' x) = uid (store s x)"
    "suffix (videoQueue s') (videoQueue s) \<or> suffix (videoQueue s') (originalQueue s)"
  shows "queue_suffix s'"
  using assms by (auto simp: queue_suffix_def intro: suffix_order.order_trans)

lemma loop_top_suffix:
  assumes "loop_top s = (r, s')"
  shows "originalQueue s' = originalQueue s \<and> nextRef s' = nextRef s \<and> store s' = store s
     \<and> (suffix (videoQueue s') (videoQueue s) \<or> suffix (videoQueue s') (originalQueue s))"
  using assms loop_top_shape[of s]
  by (auto simp: iteration_result suffix_Cons split: if_splits)

lemma resume_suffix:
  assumes "resume p out s = (r, s')"
  shows "originalQueue s' = originalQueue s \<and> nextRef s' = nextRef s
     \<and> (\<forall>x. uid (store s' x) = uid (store s x))
     \<and> (suffix (videoQueue s') (videoQueue s) \<or> suffix (videoQueue s') (originalQueue s))"
proof (cases p)
  case AwaitJoin
  with assms show ?thesis by (cases out) auto
next
  case (AwaitCreate j)
  with assms show ?thesis by (cases out; cases j) (auto dest!: loop_top_suffix)
next
  case (AwaitFetch a)
  with assms show ?thesis
    by (cases out) (auto simp: play_item_def cleanup_begin_def playVideoWithConnection_def
        split: if_splits dest!: loop_top_suffix)
next
  case (AwaitAnnounce a v)
  with assms show ?thesis by (cases out) auto
next
  case (AwaitStream a)
  with assms show ?thesis by (cases out) (auto simp: finish_playback_def split: if_splits)
next
  case (AwaitFinish a)
  with assms show ?thesis by (cases out) auto
next
  case AwaitCooldown
  with assms show ?thesis by (cases out) (auto dest!: loop_top_suffix)
next
  case AwaitLeave
  with assms show ?thesis by (cases out) (auto simp: cleanup_flags_def)
next
  case AwaitCleanupDelay
  with assms show ?thesis by (cases out) auto
qed

lemma queue_suffix_step:
  assumes "queue_suffix s" "fresh_event e s"
  shows "queue_suffix (step e s)"
proof (cases e)
  case (CmdAdd u l)
  with assms show ?thesis by (auto simp: add_cmd_def queue_suffix_push)
next
  case (CmdBatch uls)
  with assms show ?thesis by (simp add: batch_cmd_def queue_suffix_pushes)
next
  case (CmdRemove u)
  with assms show ?thesis by (simp add: queue_suffix_remove)
next
  case CmdStop
  with assms show ?thesis
    by (auto simp: stop_cmd_def Let_def queue_suffix_def split: option.splits)
next
  case (Resume i out)
  show ?thesis
  proof (cases "i < length (loops s)")
    case False
    with assms Resume show ?thesis by (simp add: resume_loop_def)
  next
    case True
    obtain r s' where r: "resume (loops s ! i) out s = (r, s')"
      by (cases "resume (loops s ! i) out s")
    from resume_suffix[OF r] assms(1) have "queue_suffix s'"
      by (intro queue_suffix_step_frame[of s s']) auto
    with r True Resume show ?thesis
      by (cases r) (auto simp: resume_loop_def queue_suffix_def)
  qed
qed (use assms in \<open>auto simp: queue_suffix_def playQueue_def Let_def cleanup_flags_def\<close>)

lemma queue_suffix_run:
  "queue_suffix s \<Longrightarrow> fresh_run es s \<Longrightarrow> queue_suffix (run es s)"
  by (induction es arbitrary: s) (auto simp: queue_suffix_step)

lemma queue_suffix_init: "queue_suffix init"
  by (simp add: queue_suffix_def init_def)

text \<open>
  Claim C6, as stated, fails in its suffix part when a uid repeats. In the state with three
  items, the third carrying the uid of the first, which has been popped, \<open>remove\<close> with that
  uid takes the third item out of the working queue and the first out of the template: the
  working queue is then a subsequence of the template, but not a suffix of it.
\<close>

theorem pending_not_suffix_after_collision:
  "videoQueue (run [CmdRemove ''11111AAA''] collision) = [Suc 0]
   \<and> originalQueue (run [CmdRemove ''11111AAA''] collision) = [Suc 0, Suc (Suc 0)]
   \<and> \<not> suffix (videoQueue (run [CmdRemove ''11111AAA''] collision))
               (originalQueue (run [CmdRemove ''11111AAA''] collision))"
  by (simp add: collision_facts removeById_def suffix_Cons)

text \<open>
  Claim C6, amended. In every state reached by commands and loop resumptions, and in every
  state reached by any sequence of the five queue operations, the working queue is a
  subsequence of the template (same relative order) and every uid in the working queue is a
  uid of the template. In a run in which no generated uid collides with a uid of the template,
  the working queue is moreover a suffix of the template and the uids of the template are
  pairwise different.
\<close>

theorem queue_pair_invariant:
  "subseq (videoQueue (run es init)) (originalQueue (run es init))
   \<and> (\<lambda>a. uid (store (run es init) a)) ` set (videoQueue (run es init))
        \<subseteq> (\<lambda>a. uid (store (run es init) a)) ` set (originalQueue (run es init))
   \<and> subseq (videoQueue (run_qops qs init)) (originalQueue (run_qops qs init))
   \<and> (\<lambda>a. uid (store (run_qops qs init) a)) ` set (videoQueue (run_qops qs init))
        \<subseteq> (\<lambda>a. uid (store (run_qops qs init) a)) ` set (originalQueue (run_qops qs init))
   \<and> (fresh_run es init \<longrightarrow>
        suffix (videoQueue (run es init)) (originalQueue (run es init))
        \<and> distinct (map (\<lambda>a. uid (store (run es init) a)) (originalQueue (run es init))))"
proof -
  have "queue_pair (run es init)"
    using run_wf[OF init_wf, of es] by (simp add: wf_def)
  moreover have "queue_pair (run_qops qs init)"
    by (rule run_qops_queue_pair[OF init_queue_pair])
  moreover have "queue_suffix (run es init)" if "fresh_run es init"
    using queue_suffix_run[OF queue_suffix_init that] .
  ultimately show ?thesis using queue_pair_ids by (auto simp: queue_suffix_def)
qed

theorem queue_pair_invariant_witness:
  "fresh_run [CmdAdd ''11111AAA'' ''a.mp4'', CmdAdd ''22222BBB'' ''b.mp4'',
     StartIfIdle, Resume 0 Done, Resume 0 Done, Resume 0 Done] init
   \<and> videoQueue streaming = [Suc 0] \<and> originalQueue streaming = [0, Suc 0]
   \<and> subseq (videoQueue streaming) (originalQueue streaming)
   \<and> suffix (videoQueue streaming) (originalQueue streaming)"
proof -
  have f: "fresh_run [CmdAdd ''11111AAA'' ''a.mp4'', CmdAdd ''22222BBB'' ''b.mp4'',
     StartIfIdle, Resume 0 Done, Resume 0 Done, Resume 0 Done] init"
    by (simp add: fresh_uid_def eval_defs)
  from f queue_pair_invariant[of "[CmdAdd ''11111AAA'' ''a.mp4'', CmdAdd ''22222BBB'' ''b.mp4'',
     StartIfIdle, Resume 0 Done, Resume 0 Done, Resume 0 Done]" "[]", folded streaming_def]
  show ?thesis by (simp add: streaming_facts)
qed

section \<open>Failed downloads\<close>

text \<open>
  Claim C2. When \<open>preDownloadVideo\<close> rejects for the popped item, the loop goes back to the
  loop head exactly as it does after a cooldown: nothing is transmitted, the template, the
  store, \<open>isPlayingQueue\<close> and \<open>joined\<close> are unchanged, the loop is still there, the failed
  item is not handed to \<open>playVideoWithConnection\<close>, and with no stop requested and a
  non-empty working queue the next item is popped. Popping a remote front item suspends the
  loop in the fetch with the item gone from the working queue and the template untouched; in
  every reachable state the item being fetched is not in the working queue.
\<close>

theorem fetch_failure_skips:
  "(loops s = [AwaitFetch a] \<longrightarrow>
      step (Resume 0 Fail) s = step (Resume 0 Done) (s\<lparr> loops := [AwaitCooldown] \<rparr>)
      \<and> originalQueue (step (Resume 0 Fail) s) = originalQueue s
      \<and> store (step (Resume 0 Fail) s) = store s
      \<and> isPlayingQueue (step (Resume 0 Fail) s) = isPlayingQueue s
      \<and> joined (step (Resume 0 Fail) s) = joined s
      \<and> transmitted (step (Resume 0 Fail) s) = transmitted s
      \<and> loops (step (Resume 0 Fail) s) \<noteq> []
      \<and> (startsWith (link (store s a)) ''http'' \<longrightarrow>
            (\<forall>v. loops (step (Resume 0 Fail) s) \<noteq> [AwaitAnnounce a v]))
      \<and> (\<not> stopRequested s \<and> videoQueue s = b # rest \<longrightarrow>
            videoQueue (step (Resume 0 Fail) s) = rest
            \<and> trace (step (Resume 0 Fail) s) = trace s @ [Popped b (link (store s b))]
            \<and> (loops (step (Resume 0 Fail) s) = [AwaitFetch b]
                \<or> loops (step (Resume 0 Fail) s) = [AwaitAnnounce b (link (store s b))])))
   \<and> (loops s = [AwaitCooldown] \<and> \<not> stopRequested s \<and> videoQueue s = a # rest
        \<and> startsWith (link (store s a)) ''http'' \<longrightarrow>
      loops (step (Resume 0 Done) s) = [AwaitFetch a]
      \<and> videoQueue (step (Resume 0 Done) s) = rest
      \<and> originalQueue (step (Resume 0 Done) s) = originalQueue s)
   \<and> (loops (run es init) = [AwaitFetch a] \<longrightarrow> a \<notin> set (videoQueue (run es init)))"
proof (intro conjI impI)
  assume h: "loops s = [AwaitFetch a]"
  obtain r s' where r: "loop_top s = (r, s')" by (cases "loop_top s")
  from loop_top_frame[OF r] obtain p where p: "r = Some p" by auto
  have st: "step (Resume 0 Fail) s = s'\<lparr> loops := [p] \<rparr>"
    using h r p loop_top_frame(2)[OF r] by (simp add: resume_loop_def)
  show "step (Resume 0 Fail) s = step (Resume 0 Done) (s\<lparr> loops := [AwaitCooldown] \<rparr>)"
    using st r p by (simp add: resume_loop_def loop_top_loops_indep)
  show "originalQueue (step (Resume 0 Fail) s) = originalQueue s"
    "store (step (Resume 0 Fail) s) = store s"
    "isPlayingQueue (step (Resume 0 Fail) s) = isPlayingQueue s"
    "joined (step (Resume 0 Fail) s) = joined s"
    "loops (step (Resume 0 Fail) s) \<noteq> []"
    using st loop_top_frame[OF r] by simp_all
  show "transmitted (step (Resume 0 Fail) s) = transmitted s"
    using st loop_top_transmitted[OF r] by (simp add: transmitted_def)
  show "\<forall>v. loops (step (Resume 0 Fail) s) \<noteq> [AwaitAnnounce a v]"
    if "startsWith (link (store s a)) ''http''"
    using st r p that loop_top_shape[of s]
    by (auto simp: iteration_result split: if_splits)
  assume "\<not> stopRequested s \<and> videoQueue s = b # rest"
  then show "videoQueue (step (Resume 0 Fail) s) = rest"
    "trace (step (Resume 0 Fail) s) = trace s @ [Popped b (link (store s b))]"
    "loops (step (Resume 0 Fail) s) = [AwaitFetch b]
       \<or> loops (step (Resume 0 Fail) s) = [AwaitAnnounce b (link (store s b))]"
    using st r p by (auto simp: loop_top_next iteration_result split: if_splits)
next
  assume "loops s = [AwaitCooldown] \<and> \<not> stopRequested s \<and> videoQueue s = a # rest
        \<and> startsWith (link (store s a)) ''http''"
  then show "loops (step (Resume 0 Done) s) = [AwaitFetch a]"
    "videoQueue (step (Resume 0 Done) s) = rest"
    "originalQueue (step (Resume 0 Done) s) = originalQueue s"
    by (simp_all add: resume_loop_def loop_top_next iteration_result)
next
  assume "loops (run es init) = [AwaitFetch a]"
  with run_wf[OF init_wf, of es] show "a \<notin> set (videoQueue (run es init))"
    by (auto simp: wf_def cur_popped_def)
qed

theorem fetch_failure_skips_witness:
  "loops fetching = [AwaitFetch 0]
   \<and> startsWith (link (store fetching 0)) ''http''
   \<and> (\<not> stopRequested fetching \<and> videoQueue fetching = [Suc 0])
   \<and> originalQueue (step (Resume 0 Fail) fetching) = [0, Suc 0]
   \<and> transmitted (step (Resume 0 Fail) fetching) = transmitted fetching
   \<and> videoQueue (step (Resume 0 Fail) fetching) = []
   \<and> trace (step (Resume 0 Fail) fetching) = trace fetching @ [Popped (Suc 0) ''b.mp4'']
   \<and> 0 \<notin> set (videoQueue fetching)
   \<and> (loops cooling = [AwaitCooldown] \<and> \<not> stopRequested cooling \<and> videoQueue cooling = [Suc 0]
        \<and> startsWith (link (store cooling (Suc 0))) ''http'')
   \<and> loops (step (Resume 0 Done) cooling) = [AwaitFetch (Suc 0)]"
proof -
  have h: "loops fetching = [AwaitFetch 0]" "startsWith (link (store fetching 0)) ''http''"
    "\<not> stopRequested fetching \<and> videoQueue fetching = [Suc 0]"
    "loops cooling = [AwaitCooldown] \<and> \<not> stopRequested cooling \<and> videoQueue cooling = [Suc 0]
        \<and> startsWith (link (store cooling (Suc 0))) ''http''"
    by (simp_all add: fetching_facts cooling_facts startsWith_def)
  note t1 = fetch_failure_skips[where s = fetching and a = 0 and b = "Suc 0" and rest = "[]"
       and es = "[CmdAdd ''11111AAA'' ''http://x/video'',
       CmdAdd ''22222BBB'' ''b.mp4'', StartIfIdle, Resume 0 Done, Resume 0 Done]",
       folded fetching_def]
  note t2 = fetch_failure_skips[where s = cooling and a = "Suc 0" and rest = "[]" and es = "[]"]
  note a = t1[THEN conjunct1, rule_format, OF h(1), THEN conjunct2]
  note b = t1[THEN conjunct2, THEN conjunct2] t2[THEN conjunct2, THEN conjunct1]
  from a b h show ?thesis by (simp add: fetching_facts)
qed

section \<open>Acquisition of the session\<close>

text \<open>
  Claim C3, as stated, fails: \<open>playQueue\<close> acquires the session before the loop is entered.
  In the run below the only item is remote and its download fails, so nothing is ever played,
  yet the session has been acquired, and before the first pop.
\<close>

theorem session_acquired_before_first_pop:
  "trace fetch_failed_run = [SessionAcquired, Popped 0 ''http://x/video'']
   \<and> transmitted fetch_failed_run = []
   \<and> loops fetch_failed_run = [] \<and> \<not> isPlayingQueue fetch_failed_run"
  by (simp add: fetch_failed_run_def transmitted_def eval_defs)

text \<open>
  Claim C3, amended. \<open>playQueue\<close> starts the acquisition (\<open>joinVoice\<close> when not joined, then
  \<open>createStream\<close>) on entry, before the first iteration. If either call rejects, the loop
  ends at once with \<open>isPlayingQueue\<close> cleared and nothing else changed, so no item is popped or
  played. If the acquisition succeeds it is recorded before anything the loop does. A
  rejected download, in contrast, leaves the loop running and \<open>isPlayingQueue\<close> as it was.
\<close>

theorem session_acquisition_failure_fatal:
  "(\<not> isPlayingQueue s \<longrightarrow>
      playQueue s = s\<lparr> isPlayingQueue := True, stopRequested := False,
                      loops := loops s @ [if joined s then AwaitCreate False else AwaitJoin] \<rparr>)
   \<and> (loops s = [AwaitJoin] \<longrightarrow>
        step (Resume 0 Fail) s = s\<lparr> isPlayingQueue := False, loops := [] \<rparr>
        \<and> step (Resume 0 Done) s = s\<lparr> loops := [AwaitCreate True] \<rparr>)
   \<and> (loops s = [AwaitCreate j] \<longrightarrow>
        step (Resume 0 Fail) s = s\<lparr> isPlayingQueue := False, loops := [] \<rparr>
        \<and> (\<exists>t. trace (step (Resume 0 Done) s) = trace s @ SessionAcquired # t)
        \<and> isPlayingQueue (step (Resume 0 Done) s) = isPlayingQueue s
        \<and> loops (step (Resume 0 Done) s) \<noteq> [])
   \<and> (loops s = [AwaitFetch a] \<longrightarrow>
        loops (step (Resume 0 Fail) s) \<noteq> []
        \<and> isPlayingQueue (step (Resume 0 Fail) s) = isPlayingQueue s)"
proof (intro conjI impI)
  assume "\<not> isPlayingQueue s"
  then show "playQueue s = s\<lparr> isPlayingQueue := True, stopRequested := False,
                      loops := loops s @ [if joined s then AwaitCreate False else AwaitJoin] \<rparr>"
    by (simp add: playQueue_def Let_def)
next
  assume "loops s = [AwaitJoin]"
  then show "step (Resume 0 Fail) s = s\<lparr> isPlayingQueue := False, loops := [] \<rparr>"
    "step (Resume 0 Done) s = s\<lparr> loops := [AwaitCreate True] \<rparr>"
    by (simp_all add: resume_loop_def)
next
  assume h: "loops s = [AwaitCreate j]"
  then show "step (Resume 0 Fail) s = s\<lparr> isPlayingQueue := False, loops := [] \<rparr>"
    by (simp add: resume_loop_def)
  define s0 where "s0 = (if j then s\<lparr> joined := True \<rparr> else s)\<lparr> trace := trace s @ [SessionAcquired] \<rparr>"
  obtain r s' where r: "loop_top s0 = (r, s')" by (cases "loop_top s0")
  from loop_top_frame[OF r] obtain p where p: "r = Some p" by auto
  have s0: "loops s0 = loops s" "isPlayingQueue s0 = isPlayingQueue s"
    "trace s0 = trace s @ [SessionAcquired]"
    by (simp_all add: s0_def)
  have st: "step (Resume 0 Done) s = s'\<lparr> loops := [p] \<rparr>"
    using h r p loop_top_frame(2)[OF r] s0 by (simp add: resume_loop_def s0_def)
  have "trace s' = trace s0 \<or> (\<exists>x. trace s' = trace s0 @ [x])"
    using r loop_top_shape[of s0] by (auto simp: iteration_result split: if_splits)
  with st s0 show "\<exists>t. trace (step (Resume 0 Done) s) = trace s @ SessionAcquired # t"
    by auto
  show "isPlayingQueue (step (Resume 0 Done) s) = isPlayingQueue s"
    "loops (step (Resume 0 Done) s) \<noteq> []"
    using st loop_top_frame[OF r] s0 by simp_all
next
  assume h: "loops s = [AwaitFetch a]"
  obtain r s' where r: "loop_top s = (r, s')" by (cases "loop_top s")
  from loop_top_frame[OF r] obtain p where p: "r = Some p" by auto
  have st: "step (Resume 0 Fail) s = s'\<lparr> loops := [p] \<rparr>"
    using h r p loop_top_frame(2)[OF r] by (simp add: resume_loop_def)
  show "loops (step (Resume 0 Fail) s) \<noteq> []"
    "isPlayingQueue (step (Resume 0 Fail) s) = isPlayingQueue s"
    using st loop_top_frame[OF r] by simp_all
qed

theorem session_acquisition_failure_fatal_witness:
  "\<not> isPlayingQueue init \<and> loops (playQueue init) = [AwaitJoin]
   \<and> loops joining = [AwaitJoin]
   \<and> \<not> isPlayingQueue (step (Resume 0 Fail) joining)
   \<and> loops (step (Resume 0 Fail) joining) = []
   \<and> videoQueue (step (Resume 0 Fail) joining) = [0]
   \<and> loops (step (Resume 0 Done) joining) = [AwaitCreate True]
   \<and> \<not> isPlayingQueue (step (Resume 0 Fail) (step (Resume 0 Done) joining))
   \<and> loops fetching = [AwaitFetch 0]
   \<and> isPlayingQueue (step (Resume 0 Fail) fetching) = isPlayingQueue fetching"
proof -
  have i: "\<not> isPlayingQueue init" "loops init = []" "\<not> joined init" by (simp_all add: init_def)
  note t0 = session_acquisition_failure_fatal[of init, THEN conjunct1, rule_format, OF i(1)]
  note t1 = session_acquisition_failure_fatal[of joining, THEN conjunct2, THEN conjunct1,
      rule_format, OF joining_facts(1)]
  have c: "loops (step (Resume 0 Done) joining) = [AwaitCreate True]"
    using t1 by simp
  note t2 = session_acquisition_failure_fatal[of "step (Resume 0 Done) joining" True,
      THEN conjunct2, THEN conjunct2, THEN conjunct1, rule_format, OF c]
  note t3 = session_acquisition_failure_fatal[of fetching _ 0,
      THEN conjunct2, THEN conjunct2, THEN conjunct2, rule_format, OF fetching_facts(1)]
  from t0 t1 t2 t3 i show ?thesis
    by (simp add: joining_facts fetching_facts)
qed

section \<open>Replay in loop mode\<close>

text \<open>
  Claim C4. Loop mode on, two remote items A and B added, both fetched and played once.
  At the cooldown after B the working queue is empty, the template is [A, B] and the stored
  links are the fetched paths. The next resumption refills the working queue and pops A with
  its fetched path, leaving [B] with B's fetched path; when A's path is local the following
  pop is B with its fetched path, and the same holds after a failed re-fetch of A.
\<close>

theorem loop_replay:
  "startsWith la ''http'' \<and> startsWith lb ''http'' \<longrightarrow>
     (let s = run (replay_prefix ua la ub lb pa pb) init;
          s' = step (Resume 0 Done) s
      in loops s = [AwaitCooldown] \<and> videoQueue s = [] \<and> originalQueue s = [0, Suc 0]
         \<and> store s 0 = \<lparr> uid = ua, link = pa \<rparr> \<and> store s (Suc 0) = \<lparr> uid = ub, link = pb \<rparr>
         \<and> trace s = [SessionAcquired, Popped 0 la, Transmit 0 pa, Popped (Suc 0) lb,
                       Transmit (Suc 0) pb]
         \<and> trace s' = trace s @ [Popped 0 pa]
         \<and> videoQueue s' = [Suc 0] \<and> originalQueue s' = [0, Suc 0]
         \<and> store s' = store s
         \<and> (\<not> startsWith pa ''http'' \<longrightarrow>
               loops s' = [AwaitAnnounce 0 pa]
               \<and> trace (run [Resume 0 Done, Resume 0 Done, Resume 0 Done, Resume 0 Done] s')
                    = trace s' @ [Transmit 0 pa, Popped (Suc 0) pb])
         \<and> (startsWith pa ''http'' \<longrightarrow>
               loops s' = [AwaitFetch 0]
               \<and> trace (step (Resume 0 Fail) s') = trace s' @ [Popped (Suc 0) pb]))"
proof
  assume h: "startsWith la ''http'' \<and> startsWith lb ''http''"
  then have ne: "la \<noteq> []" "lb \<noteq> []" by (auto dest: startsWith_http_nonempty)
  define s where "s = run (replay_prefix ua la ub lb pa pb) init"
  have s: "s = \<lparr> store = (\<lambda>_. \<lparr> uid = [], link = [] \<rparr>)
                  (0 := \<lparr> uid = ua, link = pa \<rparr>, Suc 0 := \<lparr> uid = ub, link = pb \<rparr>),
                nextRef = Suc (Suc 0), videoQueue = [], originalQueue = [0, Suc 0],
                loopEnabled = True, isPlayingQueue = True, stopRequested = False,
                currentPlayback = None, joined = True, joinsucc = False, playing = False,
                speaking = False, videoStatus = False, activity = StatusWatch,
                loops = [AwaitCooldown],
                trace = [SessionAcquired, Popped 0 la, Transmit 0 pa, Popped (Suc 0) lb,
                         Transmit (Suc 0) pb] \<rparr>"
    using h ne unfolding s_def replay_prefix_def
    by (simp add: init_def add_cmd_def push_item_def playQueue_def resume_loop_def
        loop_top_next iteration_result play_item_def playVideoWithConnection_def
        finish_playback_def Let_def fun_upd_twist)
  show "let s = run (replay_prefix ua la ub lb pa pb) init;
          s' = step (Resume 0 Done) s
      in loops s = [AwaitCooldown] \<and> videoQueue s = [] \<and> originalQueue s = [0, Suc 0]
         \<and> store s 0 = \<lparr> uid = ua, link = pa \<rparr> \<and> store s (Suc 0) = \<lparr> uid = ub, link = pb \<rparr>
         \<and> trace s = [SessionAcquired, Popped 0 la, Transmit 0 pa, Popped (Suc 0) lb,
                       Transmit (Suc 0) pb]
         \<and> trace s' = trace s @ [Popped 0 pa]
         \<and> videoQueue s' = [Suc 0] \<and> originalQueue s' = [0, Suc 0]
         \<and> store s' = store s
         \<and> (\<not> startsWith pa ''http'' \<longrightarrow>
               loops s' = [AwaitAnnounce 0 pa]
               \<and> trace (run [Resume 0 Done, Resume 0 Done, Resume 0 Done, Resume 0 Done] s')
                    = trace s' @ [Transmit 0 pa, Popped (Suc 0) pb])
         \<and> (startsWith pa ''http'' \<longrightarrow>
               loops s' = [AwaitFetch 0]
               \<and> trace (step (Resume 0 Fail) s') = trace s' @ [Popped (Suc 0) pb])"
    unfolding Let_def s_def[symmetric]
    by (simp add: s resume_loop_def loop_top_next loop_top_refill iteration_result
        finish_playback_def)
qed

theorem loop_replay_witness:
  "(startsWith ''http://x/a'' ''http'' \<and> startsWith ''https://x/b'' ''http'')
   \<and> trace (run (replay_prefix ''11111AAA'' ''http://x/a'' ''22222BBB'' ''https://x/b''
                   ''videos/a.mp4'' ''videos/b.mp4'' @ [Resume 0 Done]) init)
      = [SessionAcquired, Popped 0 ''http://x/a'', Transmit 0 ''videos/a.mp4'',
         Popped (Suc 0) ''https://x/b'', Transmit (Suc 0) ''videos/b.mp4'',
         Popped 0 ''videos/a.mp4'']
   \<and> trace (run (replay_prefix ''11111AAA'' ''http://x/a'' ''22222BBB'' ''https://x/b''
                   ''videos/a.mp4'' ''videos/b.mp4''
                 @ [Resume 0 Done, Resume 0 Done, Resume 0 Done, Resume 0 Done, Resume 0 Done]) init)
      = [SessionAcquired, Popped 0 ''http://x/a'', Transmit 0 ''videos/a.mp4'',
         Popped (Suc 0) ''https://x/b'', Transmit (Suc 0) ''videos/b.mp4'',
         Popped 0 ''videos/a.mp4'', Transmit 0 ''videos/a.mp4'', Popped (Suc 0) ''videos/b.mp4'']"
proof -
  have h: "startsWith ''http://x/a'' ''http'' \<and> startsWith ''https://x/b'' ''http''"
    and n: "\<not> startsWith ''videos/a.mp4'' ''http''"
    by (simp_all add: startsWith_def)
  note t = loop_replay[of "''http://x/a''" "''https://x/b''" "''11111AAA''" "''22222BBB''"
      "''videos/a.mp4''" "''videos/b.mp4''", rule_format, OF h, unfolded Let_def]
  from t n h show ?thesis by (simp add: run_append)
qed

section \<open>Stop before playback\<close>

text \<open>
  Claim C5, as stated, fails. One item is added, the loop is started and \<open>stop\<close> arrives while
  \<open>joinVoice\<close> is pending: the loop exits without transmitting, but only after the session
  has been acquired. And when \<open>stop\<close> arrives while the now-playing notice is pending, with
  nothing transmitted yet and no playback handle to cancel, the item is transmitted all the
  same: there is no look at the stop flag between line 224 and the call of
  \<open>streamLivestreamVideo\<close> at line 252.
\<close>

theorem stop_before_playback_acquires_session:
  "trace stopped_early = [SessionAcquired] \<and> transmitted stopped_early = []
   \<and> loops stopped_early = [] \<and> \<not> isPlayingQueue stopped_early
   \<and> loops announcing = [AwaitAnnounce 0 ''a.mp4''] \<and> transmitted announcing = []
   \<and> currentPlayback announcing = None
   \<and> transmitted (run [CmdStop, StopCleanup, Resume 0 Done] announcing) = [Transmit 0 ''a.mp4'']
   \<and> currentPlayback (run [CmdStop, StopCleanup, Resume 0 Done] announcing) = Some Pending"
  by (simp add: stopped_early_def announcing_def transmitted_def eval_defs)

lemma drain_step:
  assumes "stopRequested s" "loops s = [p]" "before_playback p" "enabled s p out"
  shows "transmitted (step (Resume 0 out) s) = transmitted s
     \<and> ((loops (step (Resume 0 out) s) = [] \<and> \<not> isPlayingQueue (step (Resume 0 out) s))
        \<or> (\<exists>p'. loops (step (Resume 0 out) s) = [p'] \<and> before_playback p' \<and> rank p' < rank p
             \<and> stopRequested (step (Resume 0 out) s)))"
proof (cases p)
  case AwaitJoin
  with assms show ?thesis by (auto simp: resume_loop_def transmitted_def)
next
  case (AwaitCreate j)
  with assms show ?thesis
    by (cases j) (auto simp: resume_loop_def transmitted_def loop_top_stop)
next
  case (AwaitFetch a)
  with assms show ?thesis
    by (cases out) (auto simp: resume_loop_def transmitted_def loop_top_stop play_item_def
        cleanup_begin_def)
next
  case AwaitCooldown
  with assms show ?thesis by (auto simp: resume_loop_def transmitted_def loop_top_stop)
next
  case AwaitLeave
  with assms show ?thesis by (auto simp: resume_loop_def transmitted_def cleanup_flags_def)
next
  case AwaitCleanupDelay
  with assms show ?thesis by (auto simp: resume_loop_def transmitted_def)
qed (use assms in auto)

lemma run_no_loop: "loops s = [] \<Longrightarrow> run (map (Resume 0) outs) s = s"
  by (induction outs) (auto simp: resume_loop_def)

lemma drain_run:
  "stopRequested s \<Longrightarrow> loops s = [p] \<Longrightarrow> before_playback p \<Longrightarrow> enabled_run outs s
     \<Longrightarrow> rank p \<le> length outs
     \<Longrightarrow> loops (run (map (Resume 0) outs) s) = []
         \<and> \<not> isPlayingQueue (run (map (Resume 0) outs) s)
         \<and> transmitted (run (map (Resume 0) outs) s) = transmitted s"
proof (induction outs arbitrary: s p)
  case Nil
  then show ?case by (cases p) auto
next
  case (Cons out outs)
  from Cons.prems have en: "enabled s p out" "enabled_run outs (step (Resume 0 out) s)"
    by auto
  from drain_step[OF Cons.prems(1,2,3) en(1)]
  have tr: "transmitted (step (Resume 0 out) s) = transmitted s"
    and alt: "(loops (step (Resume 0 out) s) = [] \<and> \<not> isPlayingQueue (step (Resume 0 out) s))
        \<or> (\<exists>p'. loops (step (Resume 0 out) s) = [p'] \<and> before_playback p' \<and> rank p' < rank p
             \<and> stopRequested (step (Resume 0 out) s))"
    by auto
  from alt show ?case
  proof
    assume "loops (step (Resume 0 out) s) = [] \<and> \<not> isPlayingQueue (step (Resume 0 out) s)"
    with tr show ?thesis using run_no_loop[of "step (Resume 0 out) s" outs] by simp
  next
    assume "\<exists>p'. loops (step (Resume 0 out) s) = [p'] \<and> before_playback p' \<and> rank p' < rank p
             \<and> stopRequested (step (Resume 0 out) s)"
    then obtain p' where p': "loops (step (Resume 0 out) s) = [p']" "before_playback p'"
      "rank p' < rank p" "stopRequested (step (Resume 0 out) s)" by auto
    with Cons.prems(5) have "rank p' \<le> length outs" by simp
    from Cons.IH[OF p'(4) p'(1) p'(2) en(2) this] tr show ?thesis by simp
  qed
qed

text \<open>
  Claim C5, amended. If the stop flag is set while the loop is suspended outside
  \<open>playVideoWithConnection\<close> (in the acquisition of the session, in the download of the item,
  in a timer or in the cleanup), then, with \<open>leaveVoice\<close> resolving, after as many resumptions
  as the rank of its position the loop is gone, \<open>isPlayingQueue\<close> is cleared and nothing has
  been transmitted. For the run started by adding one item, with \<open>stop\<close> arriving either right
  after the loop has started or between the push and the start, the session is acquired all
  the same. Nothing is stated about a stop that arrives after \<open>playVideoWithConnection\<close> has
  been called.
\<close>

theorem stop_before_playback:
  "(stopRequested s \<and> loops s = [p] \<and> before_playback p \<and> enabled_run outs s
      \<and> rank p \<le> length outs
    \<longrightarrow> loops (run (map (Resume 0) outs) s) = []
        \<and> \<not> isPlayingQueue (run (map (Resume 0) outs) s)
        \<and> transmitted (run (map (Resume 0) outs) s) = transmitted s)
   \<and> (l \<noteq> [] \<longrightarrow>
        loops (run [CmdAdd u l, StartIfIdle, CmdStop] init) = [AwaitJoin]
        \<and> stopRequested (run [CmdAdd u l, StartIfIdle, CmdStop] init)
        \<and> transmitted (run [CmdAdd u l, StartIfIdle, CmdStop] init) = []
        \<and> trace (run [CmdAdd u l, StartIfIdle, CmdStop, Resume 0 Done, Resume 0 Done] init)
             = [SessionAcquired]
        \<and> loops (run [CmdAdd u l, CmdStop, StartIfIdle] init) = [AwaitJoin]
        \<and> trace (run [CmdAdd u l, CmdStop, StartIfIdle, Resume 0 Done, Resume 0 Done,
                       Resume 0 Done, Resume 0 Done] init) = [SessionAcquired]
        \<and> loops (run [CmdAdd u l, CmdStop, StartIfIdle, Resume 0 Done, Resume 0 Done,
                       Resume 0 Done, Resume 0 Done] init) = []
        \<and> \<not> isPlayingQueue (run [CmdAdd u l, CmdStop, StartIfIdle, Resume 0 Done, Resume 0 Done,
                       Resume 0 Done, Resume 0 Done] init)
        \<and> loops (run [CmdAdd u l, CmdStop, StartIfIdle, Resume 0 Fail] init) = []
        \<and> \<not> isPlayingQueue (run [CmdAdd u l, CmdStop, StartIfIdle, Resume 0 Fail] init)
        \<and> trace (run [CmdAdd u l, CmdStop, StartIfIdle, Resume 0 Fail] init) = []
        \<and> loops (run [CmdAdd u l, CmdStop, StartIfIdle, Resume 0 Done, Resume 0 Fail] init) = []
        \<and> \<not> isPlayingQueue
              (run [CmdAdd u l, CmdStop, StartIfIdle, Resume 0 Done, Resume 0 Fail] init)
        \<and> trace (run [CmdAdd u l, CmdStop, StartIfIdle, Resume 0 Done, Resume 0 Fail] init) = [])"
proof (intro conjI impI)
  assume "stopRequested s \<and> loops s = [p] \<and> before_playback p \<and> enabled_run outs s
      \<and> rank p \<le> length outs"
  then show "loops (run (map (Resume 0) outs) s) = []"
    "\<not> isPlayingQueue (run (map (Resume 0) outs) s)"
    "transmitted (run (map (Resume 0) outs) s) = transmitted s"
    using drain_run[of s p outs] by simp_all
next
  assume "l \<noteq> []"
  then show "loops (run [CmdAdd u l, StartIfIdle, CmdStop] init) = [AwaitJoin]"
    "stopRequested (run [CmdAdd u l, StartIfIdle, CmdStop] init)"
    "transmitted (run [CmdAdd u l, StartIfIdle, CmdStop] init) = []"
    "trace (run [CmdAdd u l, StartIfIdle, CmdStop, Resume 0 Done, Resume 0 Done] init)
             = [SessionAcquired]"
    "loops (run [CmdAdd u l, CmdStop, StartIfIdle] init) = [AwaitJoin]"
    "trace (run [CmdAdd u l, CmdStop, StartIfIdle, Resume 0 Done, Resume 0 Done,
                       Resume 0 Done, Resume 0 Done] init) = [SessionAcquired]"
    "loops (run [CmdAdd u l, CmdStop, StartIfIdle, Resume 0 Done, Resume 0 Done,
                       Resume 0 Done, Resume 0 Done] init) = []"
    "\<not> isPlayingQueue (run [CmdAdd u l, CmdStop, StartIfIdle, Resume 0 Done, Resume 0 Done,
                       Resume 0 Done, Resume 0 Done] init)"
    "loops (run [CmdAdd u l, CmdStop, StartIfIdle, Resume 0 Fail] init) = []"
    "\<not> isPlayingQueue (run [CmdAdd u l, CmdStop, StartIfIdle, Resume 0 Fail] init)"
    "trace (run [CmdAdd u l, CmdStop, StartIfIdle, Resume 0 Fail] init) = []"
    "loops (run [CmdAdd u l, CmdStop, StartIfIdle, Resume 0 Done, Resume 0 Fail] init) = []"
    "\<not> isPlayingQueue
        (run [CmdAdd u l, CmdStop, StartIfIdle, Resume 0 Done, Resume 0 Fail] init)"
    "trace (run [CmdAdd u l, CmdStop, StartIfIdle, Resume 0 Done, Resume 0 Fail] init) = []"
    by (simp_all add: transmitted_def eval_defs)
qed

theorem stop_before_playback_witness:
  "(stopRequested stopping \<and> loops stopping = [AwaitJoin] \<and> before_playback AwaitJoin
      \<and> enabled_run [Done, Done, Done, Done] stopping
      \<and> rank AwaitJoin \<le> length [Done, Done, Done, Done])
   \<and> loops (run (map (Resume 0) [Done, Done, Done, Done]) stopping) = []
   \<and> \<not> isPlayingQueue (run (map (Resume 0) [Done, Done, Done, Done]) stopping)
   \<and> transmitted (run (map (Resume 0) [Done, Done, Done, Done]) stopping) = transmitted stopping
   \<and> trace (run [CmdAdd ''11111AAA'' ''a.mp4'', StartIfIdle, CmdStop, Resume 0 Done,
                  Resume 0 Done] init) = [SessionAcquired]"
proof -
  have h: "stopRequested stopping \<and> loops stopping = [AwaitJoin] \<and> before_playback AwaitJoin
      \<and> enabled_run [Done, Done, Done, Done] stopping
      \<and> rank AwaitJoin \<le> length [Done, Done, Done, Done]"
    by (simp add: stopping_def joining_def eval_defs)
  have l: "''a.mp4'' \<noteq> []" by simp
  note t = stop_before_playback[of stopping AwaitJoin "[Done, Done, Done, Done]" "''a.mp4''"
      "''11111AAA''"]
  from t[THEN conjunct1, rule_format, OF h] t[THEN conjunct2, rule_format, OF l] h
  show ?thesis by blast
qed

section \<open>Removal by uid\<close>

text \<open>
  Claim C7, as stated, fails when two items carry the same uid. Below, the third item has
  the uid of the first, which has been popped. The third item is in both queues, yet
  \<open>removeById\<close> takes it out of the working queue only and takes the first item out of the
  template.
\<close>

theorem removeById_colliding_uid:
  "Suc (Suc 0) \<in> set (videoQueue collision) \<and> Suc (Suc 0) \<in> set (originalQueue collision)
   \<and> uid (store collision (Suc (Suc 0))) = ''11111AAA''
   \<and> fst (removeById ''11111AAA'' collision) = Removed (Suc (Suc 0))
   \<and> videoQueue (snd (removeById ''11111AAA'' collision)) = [Suc 0]
   \<and> originalQueue (snd (removeById ''11111AAA'' collision)) = [Suc 0, Suc (Suc 0)]"
  by (simp add: collision_facts removeById_def)

text \<open>
  Claim C7, amended. \<open>removeById\<close> (the \<open>remove\<close> handler, lines 350-358): when the uid occurs
  in both queues, the first item carrying it leaves the working queue and is the one
  reported, and the first item carrying it leaves the template; when uids are unique within
  the template and the working queue holds items of the template only, these are one and the
  same item, and exactly that item leaves both queues. When the uid is missing from either
  queue the reply is not-found and the state is untouched.
\<close>

theorem removeById_correct:
  "(a \<in> set (videoQueue s) \<and> a \<in> set (originalQueue s) \<and> uid (store s a) = u
      \<and> distinct (map (\<lambda>x. uid (store s x)) (originalQueue s))
      \<and> set (videoQueue s) \<subseteq> set (originalQueue s)
    \<longrightarrow> removeById u s =
          (Removed a, s\<lparr> videoQueue := remove1 a (videoQueue s),
                          originalQueue := remove1 a (originalQueue s) \<rparr>))
   \<and> ((\<exists>x\<in>set (videoQueue s). uid (store s x) = u) \<and> (\<exists>y\<in>set (originalQueue s). uid (store s y) = u)
    \<longrightarrow> (\<exists>i j. findIndex (\<lambda>x. uid (store s x) = u) (videoQueue s) = Some i
             \<and> findIndex (\<lambda>x. uid (store s x) = u) (originalQueue s) = Some j
             \<and> removeById u s =
                 (Removed (videoQueue s ! i),
                  s\<lparr> videoQueue := remove1 (videoQueue s ! i) (videoQueue s),
                     originalQueue := remove1 (originalQueue s ! j) (originalQueue s) \<rparr>)))
   \<and> ((\<forall>x\<in>set (videoQueue s). uid (store s x) \<noteq> u) \<or> (\<forall>y\<in>set (originalQueue s). uid (store s y) \<noteq> u)
    \<longrightarrow> removeById u s = (NotFound, s))"
proof (intro conjI impI)
  assume h: "a \<in> set (videoQueue s) \<and> a \<in> set (originalQueue s) \<and> uid (store s a) = u
      \<and> distinct (map (\<lambda>x. uid (store s x)) (originalQueue s))
      \<and> set (videoQueue s) \<subseteq> set (originalQueue s)"
  let ?f = "\<lambda>x. uid (store s x)"
  from h obtain j where j: "findIndex (\<lambda>x. ?f x = u) (originalQueue s) = Some j" "originalQueue s ! j = a"
    using findIndex_unique[of ?f "originalQueue s" a u] by blast
  from h have "findIndex (\<lambda>x. ?f x = u) (videoQueue s) \<noteq> None"
    by (auto simp: findIndex_None_iff)
  then obtain i where i: "findIndex (\<lambda>x. ?f x = u) (videoQueue s) = Some i" by auto
  from findIndex_Some[OF i] have "videoQueue s ! i \<in> set (videoQueue s)" "?f (videoQueue s ! i) = u"
    by auto
  with h have "videoQueue s ! i \<in> set (originalQueue s)" by auto
  with h \<open>?f (videoQueue s ! i) = u\<close> have ia: "videoQueue s ! i = a"
    by (metis (mono_tags, lifting) distinct_map inj_onD)
  show "removeById u s =
          (Removed a, s\<lparr> videoQueue := remove1 a (videoQueue s),
                          originalQueue := remove1 a (originalQueue s) \<rparr>)"
    using i j ia splice1_findIndex_remove1[OF i] splice1_findIndex_remove1[OF j(1)]
    by (simp add: removeById_def)
next
  assume h: "(\<exists>x\<in>set (videoQueue s). uid (store s x) = u) \<and> (\<exists>y\<in>set (originalQueue s). uid (store s y) = u)"
  let ?P = "\<lambda>x. uid (store s x) = u"
  from h have "findIndex ?P (videoQueue s) \<noteq> None" "findIndex ?P (originalQueue s) \<noteq> None"
    by (auto simp: findIndex_None_iff)
  then obtain i j where ij: "findIndex ?P (videoQueue s) = Some i" "findIndex ?P (originalQueue s) = Some j"
    by auto
  then show "\<exists>i j. findIndex ?P (videoQueue s) = Some i
             \<and> findIndex ?P (originalQueue s) = Some j
             \<and> removeById u s =
                 (Removed (videoQueue s ! i),
                  s\<lparr> videoQueue := remove1 (videoQueue s ! i) (videoQueue s),
                     originalQueue := remove1 (originalQueue s ! j) (originalQueue s) \<rparr>)"
    using splice1_findIndex_remove1[OF ij(1)] splice1_findIndex_remove1[OF ij(2)]
    by (simp add: removeById_def)
next
  assume "(\<forall>x\<in>set (videoQueue s). uid (store s x) \<noteq> u) \<or> (\<forall>y\<in>set (originalQueue s). uid (store s y) \<noteq> u)"
  then have "findIndex (\<lambda>x. uid (store s x) = u) (videoQueue s) = None
           \<or> findIndex (\<lambda>x. uid (store s x) = u) (originalQueue s) = None"
    by (simp add: findIndex_None_iff)
  then show "removeById u s = (NotFound, s)"
    by (auto simp: removeById_def split: option.splits)
qed

theorem removeById_correct_witness:
  "removeById ''11111AAA'' two_items =
     (Removed 0, two_items\<lparr> videoQueue := [Suc 0], originalQueue := [Suc 0] \<rparr>)
   \<and> removeById ''33333CCC'' two_items = (NotFound, two_items)"
proof -
  have "removeById ''11111AAA'' two_items =
          (Removed 0, two_items\<lparr> videoQueue := remove1 0 (videoQueue two_items),
                                   originalQueue := remove1 0 (originalQueue two_items) \<rparr>)"
    using removeById_correct[of 0 two_items "''11111AAA''"]
    by (simp add: two_items_queues)
  moreover have "removeById ''33333CCC'' two_items = (NotFound, two_items)"
    using removeById_correct[of 0 two_items "''33333CCC''"]
    by (simp add: two_items_queues)
  ultimately show ?thesis by (simp add: two_items_queues)
qed

section \<open>Stop\<close>










section \<open>Transmission faults\<close>

text \<open>
  The part of claim C9 that the code honours. When the transmission of the current item
  raises, the handle is resolved with \<open>ErrorSkipped\<close> rather than rejected. On success, provider
  error and cancellation alike the speaking and video flags are switched off at settlement;
  when the finish notice has then been sent, \<open>currentPlayback\<close> is null and the loop is in the
  cooldown in the same state as after a successful transmission, keeps \<open>isPlayingQueue\<close> and
  \<open>joined\<close>, and then pops the next item.
\<close>

theorem transmission_fault_is_skip:
  "(loops s = [AwaitStream a] \<and> currentPlayback s = Some Pending \<longrightarrow>
      (let s1 = step (Resume 0 Fail) s; s2 = step (Resume 0 Done) s1; s3 = step (Resume 0 Done) s2
       in currentPlayback s1 = Some (Resolved ErrorSkipped) \<and> loops s1 = [AwaitFinish a]
          \<and> \<not> speaking s1 \<and> \<not> videoStatus s1
          \<and> currentPlayback s2 = None \<and> loops s2 = [AwaitCooldown]
          \<and> \<not> speaking s2 \<and> \<not> videoStatus s2
          \<and> s2 = s\<lparr> currentPlayback := None, speaking := False, videoStatus := False,
                     loops := [AwaitCooldown] \<rparr>
          \<and> isPlayingQueue s2 = isPlayingQueue s \<and> joined s2 = joined s
          \<and> videoQueue s2 = videoQueue s \<and> originalQueue s2 = originalQueue s
          \<and> (\<not> stopRequested s \<and> videoQueue s = b # rest \<longrightarrow>
                trace s3 = trace s @ [Popped b (link (store s b))]
                \<and> videoQueue s3 = rest \<and> joined s3 = joined s
                \<and> isPlayingQueue s3 = isPlayingQueue s
                \<and> (loops s3 = [AwaitFetch b] \<or> loops s3 = [AwaitAnnounce b (link (store s b))]))))
   \<and> (loops s = [AwaitStream a] \<and> currentPlayback s = Some Pending \<longrightarrow>
      (let s1 = step (Resume 0 Done) s; s2 = step (Resume 0 Done) s1
       in currentPlayback s1 = Some (Resolved Finished) \<and> loops s1 = [AwaitFinish a]
          \<and> \<not> speaking s1 \<and> \<not> videoStatus s1
          \<and> s2 = s\<lparr> currentPlayback := None, speaking := False, videoStatus := False,
                     loops := [AwaitCooldown] \<rparr>))
   \<and> (loops s = [AwaitStream a] \<and> currentPlayback s = Some Rejected \<longrightarrow>
      (let s1 = step (Resume 0 Cancelled) s; s2 = step (Resume 0 Done) s1
       in loops s1 = [AwaitFinish a] \<and> \<not> speaking s1 \<and> \<not> videoStatus s1
          \<and> currentPlayback s2 = None \<and> loops s2 = [AwaitCooldown]
          \<and> \<not> speaking s2 \<and> \<not> videoStatus s2))"
proof (intro conjI impI)
  assume h: "loops s = [AwaitStream a] \<and> currentPlayback s = Some Pending"
  define s2 where "s2 = step (Resume 0 Done) (step (Resume 0 Fail) s)"
  have s2: "s2 = s\<lparr> currentPlayback := None, speaking := False, videoStatus := False,
                     loops := [AwaitCooldown] \<rparr>"
    using h by (simp add: s2_def resume_loop_def finish_playback_def)
  have next_item: "trace (step (Resume 0 Done) s2) = trace s @ [Popped b (link (store s b))]
                \<and> videoQueue (step (Resume 0 Done) s2) = rest \<and> joined (step (Resume 0 Done) s2) = joined s
                \<and> isPlayingQueue (step (Resume 0 Done) s2) = isPlayingQueue s
                \<and> (loops (step (Resume 0 Done) s2) = [AwaitFetch b]
                    \<or> loops (step (Resume 0 Done) s2) = [AwaitAnnounce b (link (store s b))])"
    if "\<not> stopRequested s \<and> videoQueue s = b # rest"
    using that
    by (simp add: s2 resume_loop_def loop_top_unfold play_item_def playVideoWithConnection_def Let_def)
  show "let s1 = step (Resume 0 Fail) s; s2 = step (Resume 0 Done) s1; s3 = step (Resume 0 Done) s2
       in currentPlayback s1 = Some (Resolved ErrorSkipped) \<and> loops s1 = [AwaitFinish a]
          \<and> \<not> speaking s1 \<and> \<not> videoStatus s1
          \<and> currentPlayback s2 = None \<and> loops s2 = [AwaitCooldown]
          \<and> \<not> speaking s2 \<and> \<not> videoStatus s2
          \<and> s2 = s\<lparr> currentPlayback := None, speaking := False, videoStatus := False,
                     loops := [AwaitCooldown] \<rparr>
          \<and> isPlayingQueue s2 = isPlayingQueue s \<and> joined s2 = joined s
          \<and> videoQueue s2 = videoQueue s \<and> originalQueue s2 = originalQueue s
          \<and> (\<not> stopRequested s \<and> videoQueue s = b # rest \<longrightarrow>
                trace s3 = trace s @ [Popped b (link (store s b))]
                \<and> videoQueue s3 = rest \<and> joined s3 = joined s
                \<and> isPlayingQueue s3 = isPlayingQueue s
                \<and> (loops s3 = [AwaitFetch b] \<or> loops s3 = [AwaitAnnounce b (link (store s b))]))"
    unfolding Let_def s2_def[symmetric]
    using next_item h
    by (simp add: s2 resume_loop_def finish_playback_def)
next
  assume h: "loops s = [AwaitStream a] \<and> currentPlayback s = Some Pending"
  then show "let s1 = step (Resume 0 Done) s; s2 = step (Resume 0 Done) s1
       in currentPlayback s1 = Some (Resolved Finished) \<and> loops s1 = [AwaitFinish a]
          \<and> \<not> speaking s1 \<and> \<not> videoStatus s1
          \<and> s2 = s\<lparr> currentPlayback := None, speaking := False, videoStatus := False,
                     loops := [AwaitCooldown] \<rparr>"
    by (simp add: resume_loop_def finish_playback_def)
next
  assume h: "loops s = [AwaitStream a] \<and> currentPlayback s = Some Rejected"
  then show "let s1 = step (Resume 0 Cancelled) s; s2 = step (Resume 0 Done) s1
       in loops s1 = [AwaitFinish a] \<and> \<not> speaking s1 \<and> \<not> videoStatus s1
          \<and> currentPlayback s2 = None \<and> loops s2 = [AwaitCooldown]
          \<and> \<not> speaking s2 \<and> \<not> videoStatus s2"
    by (simp add: resume_loop_def finish_playback_def)
qed

theorem transmission_fault_is_skip_witness:
  "(loops streaming = [AwaitStream 0] \<and> currentPlayback streaming = Some Pending)
   \<and> (\<not> stopRequested streaming \<and> videoQueue streaming = [Suc 0])
   \<and> currentPlayback (step (Resume 0 Fail) streaming) = Some (Resolved ErrorSkipped)
   \<and> \<not> speaking (step (Resume 0 Fail) streaming)
   \<and> currentPlayback (step (Resume 0 Done) (step (Resume 0 Fail) streaming)) = None
   \<and> trace (step (Resume 0 Done) (step (Resume 0 Done) (step (Resume 0 Fail) streaming)))
        = trace streaming @ [Popped (Suc 0) (link (store streaming (Suc 0)))]
   \<and> (loops cancelled = [AwaitStream 0] \<and> currentPlayback cancelled = Some Rejected)
   \<and> \<not> speaking (step (Resume 0 Cancelled) cancelled)
   \<and> currentPlayback (step (Resume 0 Done) (step (Resume 0 Cancelled) cancelled)) = None"
proof -
  have h: "loops streaming = [AwaitStream 0] \<and> currentPlayback streaming = Some Pending"
    and g: "\<not> stopRequested streaming \<and> videoQueue streaming = [Suc 0]"
    by (simp_all add: streaming_facts)
  have c: "loops cancelled = [AwaitStream 0] \<and> currentPlayback cancelled = Some Rejected"
    by (simp add: cancelled_def streaming_facts stop_cmd_def cancel_def Let_def)
  from transmission_fault_is_skip[of streaming 0 "Suc 0" "[]", unfolded Let_def]
    transmission_fault_is_skip[of cancelled 0 "Suc 0" "[]", unfolded Let_def] h g c
  show ?thesis by blast
qed

text \<open>
  Claim C9 at the input where the code departs from it. The transmission settles (by success,
  by a provider error, or by cancellation) and the send of the finish notice (line 269) then
  rejects: the speaking and video flags have been switched off and the loop goes on to the
  cooldown, but the assignment of line 270 has not run and \<open>currentPlayback\<close> still holds the
  settled handle.
\<close>

theorem finish_notice_rejected_keeps_handle:
  "loops streaming = [AwaitStream 0] \<and> currentPlayback streaming = Some Pending
   \<and> currentPlayback (run [Resume 0 Done, Resume 0 Fail] streaming) = Some (Resolved Finished)
   \<and> currentPlayback (run [Resume 0 Fail, Resume 0 Fail] streaming) = Some (Resolved ErrorSkipped)
   \<and> currentPlayback (run [CmdStop, Resume 0 Cancelled, Resume 0 Fail] streaming) = Some Rejected
   \<and> loops (run [Resume 0 Done, Resume 0 Fail] streaming) = [AwaitCooldown]
   \<and> \<not> speaking (run [Resume 0 Done, Resume 0 Fail] streaming)
   \<and> \<not> videoStatus (run [Resume 0 Done, Resume 0 Fail] streaming)"
  by (simp add: streaming_facts resume_loop_def finish_playback_def stop_cmd_def cancel_def Let_def)

section \<open>Removal of popped items\<close>

text \<open>
  Claim C10, as stated, fails in two ways. In loop mode, after the refill an item that has
  already been popped and played is in the working queue again, and \<open>removeById\<close> removes
  it: below, both items have been played once and the first is being announced for the second
  time; the second item is removed from both queues. And when another item in the working
  queue carries the uid of the item being played, \<open>removeById\<close> with that uid does change
  the queues.
\<close>

theorem played_item_removable_after_refill:
  "trace second_pass = [SessionAcquired, Popped 0 ''a.mp4'', Transmit 0 ''a.mp4'',
                        Popped (Suc 0) ''b.mp4'', Transmit (Suc 0) ''b.mp4'', Popped 0 ''a.mp4'']
   \<and> uid (store second_pass (Suc 0)) = ''22222BBB''
   \<and> fst (removeById ''22222BBB'' second_pass) = Removed (Suc 0)
   \<and> videoQueue (snd (removeById ''22222BBB'' second_pass)) = []
   \<and> originalQueue (snd (removeById ''22222BBB'' second_pass)) = [0]
   \<and> loops collision = [AwaitAnnounce 0 ''a.mp4'']
   \<and> uid (store collision 0) = ''11111AAA''
   \<and> fst (removeById ''11111AAA'' collision) \<noteq> NotFound
   \<and> originalQueue (snd (removeById ''11111AAA'' collision)) \<noteq> originalQueue collision"
proof -
  have "videoQueue second_pass = [Suc 0]" "originalQueue second_pass = [0, Suc 0]"
    "uid (store second_pass 0) = ''11111AAA''" "uid (store second_pass (Suc 0)) = ''22222BBB''"
    "trace second_pass = [SessionAcquired, Popped 0 ''a.mp4'', Transmit 0 ''a.mp4'',
                        Popped (Suc 0) ''b.mp4'', Transmit (Suc 0) ''b.mp4'', Popped 0 ''a.mp4'']"
    by (simp_all add: second_pass_def eval_defs)
  then show ?thesis by (simp add: removeById_def collision_facts)
qed

text \<open>
  Claim C10, amended. In a reachable state an item that is in the template but not in the
  working queue (it has been popped and no refill has brought it back) cannot be removed: with
  uids unique in the template \<open>removeById\<close> answers not-found and changes nothing, while a
  refill from the template brings the item back. The item the loop is working on is never in
  the working queue, and the front item of the working queue occurs nowhere else in it and is
  in the template.
\<close>

theorem popped_item_not_removable:
  "(a \<in> set (originalQueue (run es init)) \<and> a \<notin> set (videoQueue (run es init))
      \<and> distinct (map (\<lambda>x. uid (store (run es init) x)) (originalQueue (run es init)))
    \<longrightarrow> removeById (uid (store (run es init) a)) (run es init) = (NotFound, run es init)
        \<and> step (CmdRemove (uid (store (run es init) a))) (run es init) = run es init
        \<and> a \<in> set (videoQueue (apply_qop Refill (run es init)))
        \<and> (videoQueue (run es init) = [] \<and> loopEnabled (run es init) \<and> \<not> stopRequested (run es init)
             \<longrightarrow> (\<exists>p s'. loop_top (run es init) = (Some p, s')
                    \<and> (cur p = Some a \<or> a \<in> set (videoQueue s')))))
   \<and> (loops (run es init) = [p] \<and> cur p = Some a \<longrightarrow> a \<notin> set (videoQueue (run es init)))
   \<and> (videoQueue (run es init) = a # rest \<longrightarrow> a \<notin> set rest \<and> a \<in> set (originalQueue (run es init)))"
proof -
  define s where "s = run es init"
  have w: "wf s" unfolding s_def by (rule run_wf[OF init_wf])
  then have q: "queue_pair s" by (simp add: wf_def)
  note ids = queue_pair_ids[OF q]
  have A: "removeById (uid (store s a)) s = (NotFound, s)
        \<and> step (CmdRemove (uid (store s a))) s = s
        \<and> a \<in> set (videoQueue (apply_qop Refill s))
        \<and> (videoQueue s = [] \<and> loopEnabled s \<and> \<not> stopRequested s
             \<longrightarrow> (\<exists>p s'. loop_top s = (Some p, s') \<and> (cur p = Some a \<or> a \<in> set (videoQueue s'))))"
    if h: "a \<in> set (originalQueue s) \<and> a \<notin> set (videoQueue s)
      \<and> distinct (map (\<lambda>x. uid (store s x)) (originalQueue s))"
  proof -
    have "uid (store s x) \<noteq> uid (store s a)" if "x \<in> set (videoQueue s)" for x
    proof
      assume e: "uid (store s x) = uid (store s a)"
      from that ids have "x \<in> set (originalQueue s)" by auto
      with h e have "x = a" by (metis (mono_tags, lifting) distinct_map inj_onD)
      with that h show False by simp
    qed
    then have "findIndex (\<lambda>x. uid (store s x) = uid (store s a)) (videoQueue s) = None"
      by (simp add: findIndex_None_iff)
    then have nf: "removeById (uid (store s a)) s = (NotFound, s)"
      by (simp add: removeById_def)
    have lt: "\<exists>p s'. loop_top s = (Some p, s') \<and> (cur p = Some a \<or> a \<in> set (videoQueue s'))"
      if "videoQueue s = [] \<and> loopEnabled s \<and> \<not> stopRequested s"
    proof -
      from h obtain b bs where b: "originalQueue s = b # bs" by (cases "originalQueue s") auto
      with h have "a = b \<or> a \<in> set bs" by auto
      with that b show ?thesis
        by (auto simp: loop_top_unfold play_item_def playVideoWithConnection_def Let_def)
    qed
    from nf lt h show ?thesis by simp
  qed
  have B: "a \<notin> set (videoQueue s)" if "loops s = [p] \<and> cur p = Some a"
    using w that by (auto simp: wf_def cur_popped_def)
  have C: "a \<notin> set rest \<and> a \<in> set (originalQueue s)" if "videoQueue s = a # rest"
  proof -
    from q have "distinct (videoQueue s)"
      by (auto simp: queue_pair_def dest: subseq_distinct)
    with that ids show ?thesis by auto
  qed
  from A B C show ?thesis unfolding s_def by blast
qed

theorem popped_item_not_removable_witness:
  "loops streaming = [AwaitStream 0] \<and> 0 \<in> set (originalQueue streaming)
   \<and> 0 \<notin> set (videoQueue streaming)
   \<and> removeById ''11111AAA'' streaming = (NotFound, streaming)
   \<and> 0 \<in> set (videoQueue (apply_qop Refill streaming))
   \<and> videoQueue streaming = [Suc 0] \<and> Suc 0 \<in> set (originalQueue streaming)"
proof -
  note t = popped_item_not_removable[of _ "[CmdAdd ''11111AAA'' ''a.mp4'', CmdAdd ''22222BBB'' ''b.mp4'',
     StartIfIdle, Resume 0 Done, Resume 0 Done, Resume 0 Done]", folded streaming_def]
  from t[of 0 "AwaitStream 0" "[]"] t[of "Suc 0" "AwaitStream 0" "[]"]
  show ?thesis by (simp add: streaming_facts)
qed

end
